theory Spec2Isabelle
  imports Complex_Main "HOL-Library.AList"
begin

section \<open>The arrow-domain puzzle engine (src/components/ArrowDomainGame.tsx)\<close>

text \<open>
  A shallow embedding of the chain-reaction engine of \<^verbatim>\<open>ArrowDomainGame.tsx\<close>:
  the geometry helpers, the ray cast \<^verbatim>\<open>castNearest\<close>, the wave simulator
  \<^verbatim>\<open>simulateAttempt\<close>, the growth-tree generator, the layout builder, the
  search loop \<^verbatim>\<open>createPuzzle\<close> and the synchronous prefix of \<^verbatim>\<open>playAttempt\<close>.

  Conventions of the embedding.
  \<^item> JavaScript numbers that hold grid coordinates, sizes, counters and serials are
    \<open>int\<close>; the values of the random source and the chances of a difficulty profile
    are exact rationals (floating-point rounding is not modelled).
  \<^item> A JavaScript \<^verbatim>\<open>Map\<close> is an association list with distinct keys in insertion
    order; \<^verbatim>\<open>set\<close> overwrites the value of a present key in place and appends an
    absent one, as the language specifies. A \<^verbatim>\<open>Set\<close> is a duplicate-free list in
    insertion order. \<^verbatim>\<open>Array.from\<close> of either is the list itself.
  \<^item> \<^verbatim>\<open>undefined\<close> and \<^verbatim>\<open>null\<close> results are \<open>None\<close>.
  \<^item> The random source \<^verbatim>\<open>rng: () => number\<close> is the sequence of the values its
    successive calls return, \<open>nat \<Rightarrow> rat\<close>, and every function that calls it takes
    and returns the number of calls made so far.
\<close>

subsection \<open>JavaScript containers\<close>

type_synonym ('k, 'v) js_map = "('k \<times> 'v) list"
type_synonym 'a js_set = "'a list"

definition Map_get :: "('k, 'v) js_map \<Rightarrow> 'k \<Rightarrow> 'v option" where
  "Map_get m k = map_of m k"

definition Map_has :: "('k, 'v) js_map \<Rightarrow> 'k \<Rightarrow> bool" where
  "Map_has m k = (map_of m k \<noteq> None)"

definition Map_set :: "('k, 'v) js_map \<Rightarrow> 'k \<Rightarrow> 'v \<Rightarrow> ('k, 'v) js_map" where
  "Map_set m k v = AList.update k v m"

definition Map_delete :: "('k, 'v) js_map \<Rightarrow> 'k \<Rightarrow> ('k, 'v) js_map" where
  "Map_delete m k = AList.delete k m"

definition Map_size :: "('k, 'v) js_map \<Rightarrow> int" where
  "Map_size m = int (length m)"

text \<open>\<^verbatim>\<open>new Map(entries)\<close>: the entries are set one after the other.\<close>

definition Map_new :: "('k \<times> 'v) list \<Rightarrow> ('k, 'v) js_map" where
  "Map_new entries = foldl (\<lambda>m (k, v). Map_set m k v) [] entries"

definition Set_has :: "'a js_set \<Rightarrow> 'a \<Rightarrow> bool" where
  "Set_has s x = (x \<in> set s)"

definition Set_add :: "'a js_set \<Rightarrow> 'a \<Rightarrow> 'a js_set" where
  "Set_add s x = (if x \<in> set s then s else s @ [x])"

definition Set_delete :: "'a js_set \<Rightarrow> 'a \<Rightarrow> 'a js_set" where
  "Set_delete s x = removeAll x s"

definition Set_size :: "'a js_set \<Rightarrow> int" where
  "Set_size s = int (length s)"

definition Set_new :: "'a list \<Rightarrow> 'a js_set" where
  "Set_new xs = foldl Set_add [] xs"

subsection \<open>Numbers in template strings\<close>

text \<open>
  \<^verbatim>\<open>`${n}`\<close> for an integer \<open>n\<close>: its decimal digits, with a leading minus sign
  when negative.
\<close>

definition digit_char :: "nat \<Rightarrow> char" where
  "digit_char d = ''0123456789'' ! d"

function show_nat :: "nat \<Rightarrow> string" where
  "show_nat n = (if n < 10 then [digit_char n] else show_nat (n div 10) @ [digit_char (n mod 10)])"
  by pat_completeness auto
termination
  by (relation "measure (\<lambda>n. n)") auto

declare show_nat.simps [simp del]

definition show_int :: "int \<Rightarrow> string" where
  "show_int i = (if i < 0 then CHR ''-'' # show_nat (nat (- i)) else show_nat (nat i))"

subsection \<open>Data model\<close>

datatype ArrowDir = N | NE | E | SE | S | SW | W | NW

datatype DifficultyId = Easy | Normal | Hard | Expert | Master

datatype GamePhase = Idle | Animating | Resolved

datatype ResolveResult = Success | Fail

record Point =
  row :: int
  col :: int

text \<open>
  \<^verbatim>\<open>ArrowBlock {id, row, col, dirs}\<close>: the record extends \<open>Point\<close>, so that
  \<open>row\<close> and \<open>col\<close> read both; the field \<^verbatim>\<open>id\<close> is \<open>blockId\<close>.
  Record fields keep the source's names, so the parameters \<^verbatim>\<open>rows\<close>, \<^verbatim>\<open>cols\<close>
  and \<^verbatim>\<open>byCoord\<close> of the functions below are written \<open>nrows\<close>, \<open>ncols\<close>
  and \<open>index\<close>.
\<close>

record ArrowBlock = Point +
  blockId :: string
  dirs :: "ArrowDir list"

record DirectionCast =
  dir :: ArrowDir
  toId :: "string option"
  rayCells :: "(int \<times> int) list"

record WaveSource =
  fromId :: string
  casts :: "DirectionCast list"

record AttemptWave =
  sources :: "WaveSource list"

record AttemptResult =
  waves :: "AttemptWave list"
  success :: bool

subsection \<open>Geometry\<close>

definition ALL_DIRECTIONS :: "ArrowDir list" where
  "ALL_DIRECTIONS = [N, NE, E, SE, S, SW, W, NW]"

fun DIR_VECTORS :: "ArrowDir \<Rightarrow> int \<times> int" where
  "DIR_VECTORS N = (-1, 0)"
| "DIR_VECTORS NE = (-1, 1)"
| "DIR_VECTORS E = (0, 1)"
| "DIR_VECTORS SE = (1, 1)"
| "DIR_VECTORS S = (1, 0)"
| "DIR_VECTORS SW = (1, -1)"
| "DIR_VECTORS W = (0, -1)"
| "DIR_VECTORS NW = (-1, -1)"

definition coordKey :: "int \<Rightarrow> int \<Rightarrow> string" where
  "coordKey r c = show_int r @ '':'' @ show_int c"

definition inBounds :: "int \<Rightarrow> int \<Rightarrow> int \<Rightarrow> int \<Rightarrow> bool" where
  "inBounds r c nrows ncols = (r \<ge> 0 \<and> r < nrows \<and> c \<ge> 0 \<and> c < ncols)"

subsection \<open>The ray cast\<close>

text \<open>
  The \<^verbatim>\<open>while\<close> loop of \<^verbatim>\<open>castNearest\<close>. \<^verbatim>\<open>if (hitId)\<close> is a truthiness
  test: it fails for a missing key and also for the empty string.
\<close>

definition ray_measure :: "int \<Rightarrow> int \<Rightarrow> int \<Rightarrow> nat" where
  "ray_measure d bound x = (if d > 0 then nat (bound - x) else if d < 0 then nat (x + 1) else 0)"

lemma ray_step_decreases:
  "inBounds r c nrows ncols \<Longrightarrow>
   ray_measure (fst (DIR_VECTORS d)) nrows (r + fst (DIR_VECTORS d))
     + ray_measure (snd (DIR_VECTORS d)) ncols (c + snd (DIR_VECTORS d))
   < ray_measure (fst (DIR_VECTORS d)) nrows r + ray_measure (snd (DIR_VECTORS d)) ncols c"
  by (cases d) (auto simp: inBounds_def ray_measure_def)

function cast_loop ::
  "ArrowDir \<Rightarrow> (string, string) js_map \<Rightarrow> int \<Rightarrow> int \<Rightarrow> int \<Rightarrow> int \<Rightarrow> (int \<times> int) list
    \<Rightarrow> DirectionCast" where
  "cast_loop d index nrows ncols r c cells =
     (if inBounds r c nrows ncols then
        (let cells' = cells @ [(r, c)] in
         case Map_get index (coordKey r c) of
           None \<Rightarrow> cast_loop d index nrows ncols (r + fst (DIR_VECTORS d)) (c + snd (DIR_VECTORS d)) cells'
         | Some hitId \<Rightarrow>
             if hitId \<noteq> [] then \<lparr>dir = d, toId = Some hitId, rayCells = cells'\<rparr>
             else cast_loop d index nrows ncols (r + fst (DIR_VECTORS d)) (c + snd (DIR_VECTORS d)) cells')
      else \<lparr>dir = d, toId = None, rayCells = cells\<rparr>)"
  by pat_completeness auto
termination
  by (relation "measure (\<lambda>(d, index, nrows, ncols, r, c, cells).
        ray_measure (fst (DIR_VECTORS d)) nrows r + ray_measure (snd (DIR_VECTORS d)) ncols c)")
     (simp_all add: ray_step_decreases)

declare cast_loop.simps [simp del]

definition castNearest ::
  "ArrowBlock \<Rightarrow> ArrowDir \<Rightarrow> (string, string) js_map \<Rightarrow> int \<Rightarrow> int \<Rightarrow> DirectionCast" where
  "castNearest block d index nrows ncols =
     cast_loop d index nrows ncols
       (row block + fst (DIR_VECTORS d)) (col block + snd (DIR_VECTORS d)) []"

subsection \<open>The wave simulator\<close>

text \<open>
  The mutable objects \<^verbatim>\<open>simulateAttempt\<close> works on: the array it is given
  (\<open>layoutArg\<close>, shared with the caller), its three maps, the wave list and the
  frontier. Each step of the loop returns the updated state.
\<close>

record sim_state =
  layoutArg :: "ArrowBlock list"
  layoutById :: "(string, ArrowBlock) js_map"
  aliveById :: "(string, ArrowBlock) js_map"
  byCoord :: "(string, string) js_map"
  wavesAcc :: "AttemptWave list"
  frontier :: "string js_set"

definition sim_init :: "ArrowBlock list \<Rightarrow> string \<Rightarrow> sim_state" where
  "sim_init blocks startId =
     \<lparr>layoutArg = blocks,
      layoutById = Map_new (map (\<lambda>block. (blockId block, block)) blocks),
      aliveById = Map_new (map (\<lambda>block. (blockId block, block)) blocks),
      byCoord = Map_new (map (\<lambda>block. (coordKey (row block) (col block), blockId block)) blocks),
      wavesAcc = [],
      frontier = Set_new [startId]\<rparr>"

text \<open>The \<^verbatim>\<open>forEach\<close> that removes one id of the wave from both maps.\<close>

definition vanish_one :: "sim_state \<Rightarrow> string \<Rightarrow> sim_state" where
  "vanish_one s i =
     (case Map_get (aliveById s) i of
        None \<Rightarrow> s
      | Some block \<Rightarrow>
          s\<lparr>aliveById := Map_delete (aliveById s) i,
            byCoord := Map_delete (byCoord s) (coordKey (row block) (col block))\<rparr>)"

definition vanish :: "string list \<Rightarrow> sim_state \<Rightarrow> sim_state" where
  "vanish currentWaveIds s = foldl vanish_one s currentWaveIds"

text \<open>The \<^verbatim>\<open>flatMap\<close> that casts every arrow of every source of the wave.\<close>

definition cast_sources :: "int \<Rightarrow> int \<Rightarrow> string list \<Rightarrow> sim_state \<Rightarrow> WaveSource list" where
  "cast_sources nrows ncols currentWaveIds s =
     concat (map (\<lambda>i.
       case Map_get (layoutById s) i of
         None \<Rightarrow> []
       | Some block \<Rightarrow>
           [\<lparr>fromId = i,
             casts = map (\<lambda>d. castNearest block d (byCoord s) nrows ncols) (dirs block)\<rparr>])
       currentWaveIds)"

text \<open>\<^verbatim>\<open>cast.toId && aliveById.has(cast.toId)\<close>: a null or empty id is falsy.\<close>

definition add_hit :: "sim_state \<Rightarrow> string js_set \<Rightarrow> DirectionCast \<Rightarrow> string js_set" where
  "add_hit s nextFrontier cast =
     (case toId cast of
        None \<Rightarrow> nextFrontier
      | Some t \<Rightarrow> if t \<noteq> [] \<and> Map_has (aliveById s) t then Set_add nextFrontier t else nextFrontier)"

definition next_frontier :: "WaveSource list \<Rightarrow> sim_state \<Rightarrow> string js_set" where
  "next_frontier srcs s = foldl (\<lambda>nf source. foldl (add_hit s) nf (casts source)) [] srcs"

definition wave_step :: "int \<Rightarrow> int \<Rightarrow> string list \<Rightarrow> sim_state \<Rightarrow> sim_state" where
  "wave_step nrows ncols currentWaveIds s =
     (let s1 = vanish currentWaveIds s;
          srcs = cast_sources nrows ncols currentWaveIds s1;
          nextFrontier = next_frontier srcs s1
      in s1\<lparr>wavesAcc := wavesAcc s1 @ [\<lparr>sources = srcs\<rparr>], frontier := nextFrontier\<rparr>)"

lemma length_Map_delete_le: "length (Map_delete m k) \<le> length m"
  by (simp add: Map_delete_def length_delete_le)

lemma length_Map_delete_less: "Map_has m k \<Longrightarrow> length (Map_delete m k) < length m"
proof -
  assume "Map_has m k"
  then obtain v where "(k, v) \<in> set m"
    by (auto simp: Map_has_def dest: map_of_SomeD)
  then show ?thesis
    unfolding Map_delete_def AList.delete_eq
    by (intro length_filter_less[where x = "(k, v)"]) auto
qed

lemma vanish_one_alive_le: "length (aliveById (vanish_one s i)) \<le> length (aliveById s)"
  by (simp add: vanish_one_def length_Map_delete_le split: option.splits)

lemma vanish_alive_le: "length (aliveById (vanish ids s)) \<le> length (aliveById s)"
  unfolding vanish_def
proof (induction ids arbitrary: s)
  case Nil
  show ?case by simp
next
  case (Cons i ids)
  have "length (aliveById (foldl vanish_one (vanish_one s i) ids)) \<le> length (aliveById (vanish_one s i))"
    by (rule Cons.IH)
  also have "\<dots> \<le> length (aliveById s)"
    by (rule vanish_one_alive_le)
  finally show ?case by simp
qed

lemma vanish_alive_less:
  assumes "ids \<noteq> []" and "\<forall>i \<in> set ids. Map_has (aliveById s) i"
  shows "length (aliveById (vanish ids s)) < length (aliveById s)"
proof (cases ids)
  case Nil
  with assms show ?thesis by simp
next
  case (Cons i rest)
  with assms have h: "Map_has (aliveById s) i" by simp
  then have "length (aliveById (vanish_one s i)) < length (aliveById s)"
    by (auto simp: vanish_one_def Map_has_def Map_get_def length_Map_delete_less split: option.splits)
  moreover have "length (aliveById (vanish rest (vanish_one s i))) \<le> length (aliveById (vanish_one s i))"
    by (rule vanish_alive_le)
  ultimately show ?thesis
    using Cons by (simp add: vanish_def)
qed

lemma wave_step_alive_less:
  assumes "filter (Map_has (aliveById s)) (frontier s) \<noteq> []"
  shows "length (aliveById (wave_step nrows ncols (filter (Map_has (aliveById s)) (frontier s)) s))
           < length (aliveById s)"
  using vanish_alive_less[OF assms, of s] by (simp add: wave_step_def Let_def)

function sim_loop :: "int \<Rightarrow> int \<Rightarrow> sim_state \<Rightarrow> sim_state" where
  "sim_loop nrows ncols s =
     (if Set_size (frontier s) > 0 then
        (let currentWaveIds = filter (Map_has (aliveById s)) (frontier s) in
         if length currentWaveIds = 0 then s
         else sim_loop nrows ncols (wave_step nrows ncols currentWaveIds s))
      else s)"
  by pat_completeness auto
termination
  by (relation "measure (\<lambda>(nrows, ncols, s). length (aliveById s))")
     (simp_all add: wave_step_alive_less)

declare sim_loop.simps [simp del]

definition simulateAttempt :: "ArrowBlock list \<Rightarrow> string \<Rightarrow> int \<Rightarrow> int \<Rightarrow> AttemptResult" where
  "simulateAttempt blocks startId nrows ncols =
     (let s = sim_loop nrows ncols (sim_init blocks startId)
      in \<lparr>waves = wavesAcc s, success = (Map_size (aliveById s) = 0)\<rparr>)"


subsection \<open>The simulator as a relation between states\<close>

text \<open>
  The same statements of \<^verbatim>\<open>castNearest\<close> and \<^verbatim>\<open>simulateAttempt\<close> once more, this
  time as relations between the state before and the state after, with one rule for
  every way through the body of a loop or of a callback. Nothing in the form of a
  relation makes its result unique or makes it exist: that the rules leave exactly one
  result is a property of the code. The rules read the arguments and the objects the call
  creates itself, and nothing else: the source reads no clock, no random source and no
  variable outside the call. Arrays are visited by index, and a \<^verbatim>\<open>Set\<close> in insertion
  order.

  The \<^verbatim>\<open>while\<close> loop of \<^verbatim>\<open>castNearest\<close>: the ray leaves the grid, or hits a cell
  with a truthy id, or passes a cell that has no id or a falsy one.
\<close>

inductive ray_loop_rel ::
  "ArrowDir \<Rightarrow> (string, string) js_map \<Rightarrow> int \<Rightarrow> int \<Rightarrow> int \<Rightarrow> int \<Rightarrow> (int \<times> int) list
    \<Rightarrow> DirectionCast \<Rightarrow> bool"
  for d index nrows ncols where
  ray_leaves:
    "\<not> inBounds r c nrows ncols \<Longrightarrow>
     ray_loop_rel d index nrows ncols r c cells \<lparr>dir = d, toId = None, rayCells = cells\<rparr>"
| ray_hits:
    "inBounds r c nrows ncols \<Longrightarrow> Map_get index (coordKey r c) = Some hitId \<Longrightarrow> hitId \<noteq> [] \<Longrightarrow>
     ray_loop_rel d index nrows ncols r c cells
       \<lparr>dir = d, toId = Some hitId, rayCells = cells @ [(r, c)]\<rparr>"
| ray_passes_free:
    "inBounds r c nrows ncols \<Longrightarrow> Map_get index (coordKey r c) = None \<Longrightarrow>
     ray_loop_rel d index nrows ncols (r + fst (DIR_VECTORS d)) (c + snd (DIR_VECTORS d))
       (cells @ [(r, c)]) cast \<Longrightarrow>
     ray_loop_rel d index nrows ncols r c cells cast"
| ray_passes_falsy:
    "inBounds r c nrows ncols \<Longrightarrow> Map_get index (coordKey r c) = Some [] \<Longrightarrow>
     ray_loop_rel d index nrows ncols (r + fst (DIR_VECTORS d)) (c + snd (DIR_VECTORS d))
       (cells @ [(r, c)]) cast \<Longrightarrow>
     ray_loop_rel d index nrows ncols r c cells cast"

inductive castNearest_rel ::
  "ArrowBlock \<Rightarrow> ArrowDir \<Rightarrow> (string, string) js_map \<Rightarrow> int \<Rightarrow> int \<Rightarrow> DirectionCast \<Rightarrow> bool" where
  "ray_loop_rel d index nrows ncols
     (row block + fst (DIR_VECTORS d)) (col block + snd (DIR_VECTORS d)) [] cast \<Longrightarrow>
   castNearest_rel block d index nrows ncols cast"

text \<open>The \<^verbatim>\<open>forEach\<close> that removes the ids of the wave from the two maps.\<close>

inductive vanish_rel :: "string list \<Rightarrow> sim_state \<Rightarrow> sim_state \<Rightarrow> bool" where
  vanish_done: "vanish_rel [] s s"
| vanish_absent:
    "Map_get (aliveById s) i = None \<Longrightarrow> vanish_rel ids s s' \<Longrightarrow> vanish_rel (i # ids) s s'"
| vanish_block:
    "Map_get (aliveById s) i = Some block \<Longrightarrow>
     vanish_rel ids
       (s\<lparr>aliveById := Map_delete (aliveById s) i,
          byCoord := Map_delete (byCoord s) (coordKey (row block) (col block))\<rparr>) s' \<Longrightarrow>
     vanish_rel (i # ids) s s'"

text \<open>
  \<^verbatim>\<open>block.dirs.map(...)\<close> and the \<^verbatim>\<open>flatMap\<close> over the ids of the wave.
\<close>

inductive casts_rel ::
  "ArrowBlock \<Rightarrow> (string, string) js_map \<Rightarrow> int \<Rightarrow> int \<Rightarrow> ArrowDir list \<Rightarrow> DirectionCast list \<Rightarrow> bool"
  for block index nrows ncols where
  casts_done: "casts_rel block index nrows ncols [] []"
| casts_next:
    "castNearest_rel block d index nrows ncols cast \<Longrightarrow>
     casts_rel block index nrows ncols ds cs \<Longrightarrow>
     casts_rel block index nrows ncols (d # ds) (cast # cs)"

inductive cast_sources_rel :: "int \<Rightarrow> int \<Rightarrow> string list \<Rightarrow> sim_state \<Rightarrow> WaveSource list \<Rightarrow> bool"
  for nrows ncols where
  sources_done: "cast_sources_rel nrows ncols [] s []"
| sources_unknown:
    "Map_get (layoutById s) i = None \<Longrightarrow> cast_sources_rel nrows ncols ids s srcs \<Longrightarrow>
     cast_sources_rel nrows ncols (i # ids) s srcs"
| sources_block:
    "Map_get (layoutById s) i = Some block \<Longrightarrow>
     casts_rel block (byCoord s) nrows ncols (dirs block) cs \<Longrightarrow>
     cast_sources_rel nrows ncols ids s srcs \<Longrightarrow>
     cast_sources_rel nrows ncols (i # ids) s (\<lparr>fromId = i, casts = cs\<rparr> # srcs)"

text \<open>
  The two nested \<^verbatim>\<open>forEach\<close> that collect the next frontier: a hit is added when
  \<^verbatim>\<open>cast.toId && aliveById.has(cast.toId)\<close> holds.
\<close>

inductive add_hits_rel :: "sim_state \<Rightarrow> DirectionCast list \<Rightarrow> string js_set \<Rightarrow> string js_set \<Rightarrow> bool"
  for s where
  hits_done: "add_hits_rel s [] nextFrontier nextFrontier"
| hit_added:
    "toId cast = Some t \<Longrightarrow> t \<noteq> [] \<Longrightarrow> Map_has (aliveById s) t \<Longrightarrow>
     add_hits_rel s cs (Set_add nextFrontier t) nextFrontier' \<Longrightarrow>
     add_hits_rel s (cast # cs) nextFrontier nextFrontier'"
| hit_null:
    "toId cast = None \<Longrightarrow> add_hits_rel s cs nextFrontier nextFrontier' \<Longrightarrow>
     add_hits_rel s (cast # cs) nextFrontier nextFrontier'"
| hit_falsy:
    "toId cast = Some [] \<Longrightarrow> add_hits_rel s cs nextFrontier nextFrontier' \<Longrightarrow>
     add_hits_rel s (cast # cs) nextFrontier nextFrontier'"
| hit_gone:
    "toId cast = Some t \<Longrightarrow> t \<noteq> [] \<Longrightarrow> \<not> Map_has (aliveById s) t \<Longrightarrow>
     add_hits_rel s cs nextFrontier nextFrontier' \<Longrightarrow>
     add_hits_rel s (cast # cs) nextFrontier nextFrontier'"

inductive next_frontier_rel :: "sim_state \<Rightarrow> WaveSource list \<Rightarrow> string js_set \<Rightarrow> string js_set \<Rightarrow> bool"
  for s where
  frontier_done: "next_frontier_rel s [] nextFrontier nextFrontier"
| frontier_source:
    "add_hits_rel s (casts source) nextFrontier nextFrontier1 \<Longrightarrow>
     next_frontier_rel s srcs nextFrontier1 nextFrontier' \<Longrightarrow>
     next_frontier_rel s (source # srcs) nextFrontier nextFrontier'"

text \<open>
  The \<^verbatim>\<open>while\<close> loop of \<^verbatim>\<open>simulateAttempt\<close>: it ends when the frontier is empty,
  or at the \<^verbatim>\<open>break\<close>, or it runs one wave and goes round again. The call returns the
  waves and the success flag of the state the loop ends in.
\<close>

inductive wave_loop_rel :: "int \<Rightarrow> int \<Rightarrow> sim_state \<Rightarrow> sim_state \<Rightarrow> bool"
  for nrows ncols where
  loop_exit: "\<not> Set_size (frontier s) > 0 \<Longrightarrow> wave_loop_rel nrows ncols s s"
| loop_break:
    "Set_size (frontier s) > 0 \<Longrightarrow> length (filter (Map_has (aliveById s)) (frontier s)) = 0 \<Longrightarrow>
     wave_loop_rel nrows ncols s s"
| loop_wave:
    "Set_size (frontier s) > 0 \<Longrightarrow>
     currentWaveIds = filter (Map_has (aliveById s)) (frontier s) \<Longrightarrow>
     length currentWaveIds \<noteq> 0 \<Longrightarrow>
     vanish_rel currentWaveIds s s1 \<Longrightarrow>
     cast_sources_rel nrows ncols currentWaveIds s1 srcs \<Longrightarrow>
     next_frontier_rel s1 srcs [] nextFrontier \<Longrightarrow>
     wave_loop_rel nrows ncols
       (s1\<lparr>wavesAcc := wavesAcc s1 @ [\<lparr>sources = srcs\<rparr>], frontier := nextFrontier\<rparr>) s' \<Longrightarrow>
     wave_loop_rel nrows ncols s s'"

inductive simulateAttempt_rel :: "ArrowBlock list \<Rightarrow> string \<Rightarrow> int \<Rightarrow> int \<Rightarrow> AttemptResult \<Rightarrow> bool" where
  "wave_loop_rel nrows ncols (sim_init blocks startId) s \<Longrightarrow>
   simulateAttempt_rel blocks startId nrows ncols
     \<lparr>waves = wavesAcc s, success = (Map_size (aliveById s) = 0)\<rparr>"

code_pred (modes: i \<Rightarrow> i \<Rightarrow> i \<Rightarrow> i \<Rightarrow> i \<Rightarrow> i \<Rightarrow> i \<Rightarrow> o \<Rightarrow> bool) ray_loop_rel .
code_pred (modes: i \<Rightarrow> i \<Rightarrow> i \<Rightarrow> i \<Rightarrow> i \<Rightarrow> o \<Rightarrow> bool) castNearest_rel .
code_pred (modes: i \<Rightarrow> i \<Rightarrow> o \<Rightarrow> bool) vanish_rel .
code_pred (modes: i \<Rightarrow> i \<Rightarrow> i \<Rightarrow> i \<Rightarrow> i \<Rightarrow> o \<Rightarrow> bool) casts_rel .
code_pred (modes: i \<Rightarrow> i \<Rightarrow> i \<Rightarrow> i \<Rightarrow> o \<Rightarrow> bool) cast_sources_rel .
code_pred (modes: i \<Rightarrow> i \<Rightarrow> i \<Rightarrow> o \<Rightarrow> bool) add_hits_rel .
code_pred (modes: i \<Rightarrow> i \<Rightarrow> i \<Rightarrow> o \<Rightarrow> bool) next_frontier_rel .
code_pred (modes: i \<Rightarrow> i \<Rightarrow> i \<Rightarrow> o \<Rightarrow> bool) wave_loop_rel .
code_pred (modes: i \<Rightarrow> i \<Rightarrow> i \<Rightarrow> i \<Rightarrow> o \<Rightarrow> bool) simulateAttempt_rel .

subsection \<open>Random choices\<close>

type_synonym rng = "nat \<Rightarrow> rat"

text \<open>
  \<open>TypeError\<close>: the source reads a property of \<^verbatim>\<open>undefined\<close>. \<open>UndefinedValue\<close>:
  the source stores \<^verbatim>\<open>undefined\<close> where its types promise a direction (a
  \<^verbatim>\<open>chooseRandom\<close> or an array read that found nothing); the model stops there
  with an error instead of carrying the ill-typed value on.
\<close>

datatype error = TypeError | UndefinedValue

definition randomInt :: "rng \<Rightarrow> nat \<Rightarrow> int \<Rightarrow> int \<Rightarrow> int \<times> nat" where
  "randomInt rng n lo hi = (lo + \<lfloor>rng n * of_int (hi - lo + 1)\<rfloor>, Suc n)"

text \<open>An array read \<^verbatim>\<open>xs[i]\<close>: \<^verbatim>\<open>undefined\<close> outside the array.\<close>

definition array_get :: "'a list \<Rightarrow> int \<Rightarrow> 'a option" where
  "array_get xs i = (if 0 \<le> i \<and> i < int (length xs) then Some (xs ! nat i) else None)"

definition chooseRandom :: "'a list \<Rightarrow> rng \<Rightarrow> nat \<Rightarrow> 'a option \<times> nat" where
  "chooseRandom vals rng n =
     (case randomInt rng n 0 (int (length vals) - 1) of (i, n') \<Rightarrow> (array_get vals i, n'))"

text \<open>
  \<^verbatim>\<open>shuffle\<close>: the loop runs \<^verbatim>\<open>index\<close> from the last position down to 1 and
  swaps it with a random position.
\<close>

fun shuffle_loop :: "nat \<Rightarrow> 'a list \<Rightarrow> rng \<Rightarrow> nat \<Rightarrow> error + ('a list \<times> nat)" where
  "shuffle_loop 0 vals rng n = Inr (vals, n)"
| "shuffle_loop (Suc k) vals rng n =
     (case randomInt rng n 0 (int (Suc k)) of (swapIndex, n') \<Rightarrow>
        (case (array_get vals (int (Suc k)), array_get vals swapIndex) of
           (Some temp, Some other) \<Rightarrow>
             shuffle_loop k ((vals[Suc k := other])[nat swapIndex := temp]) rng n'
         | _ \<Rightarrow> Inl UndefinedValue))"

definition shuffle :: "'a list \<Rightarrow> rng \<Rightarrow> nat \<Rightarrow> error + ('a list \<times> nat)" where
  "shuffle items rng n = shuffle_loop (length items - 1) items rng n"

subsection \<open>Neighbours and points\<close>

text \<open>The entries of \<^verbatim>\<open>getNeighborEntries\<close>; the field \<^verbatim>\<open>dir\<close> is \<open>entryDir\<close>.\<close>

record NeighborEntry = Point +
  entryDir :: ArrowDir
  key :: string

definition getNeighborEntries :: "int \<Rightarrow> int \<Rightarrow> int \<Rightarrow> int \<Rightarrow> NeighborEntry list" where
  "getNeighborEntries r c nrows ncols =
     filter (\<lambda>next. inBounds (row next) (col next) nrows ncols)
       (map (\<lambda>d. case DIR_VECTORS d of (dr, dc) \<Rightarrow>
                 (let nextRow = r + dr; nextCol = c + dc
                  in \<lparr>row = nextRow, col = nextCol, entryDir = d, key = coordKey nextRow nextCol\<rparr>))
            ALL_DIRECTIONS)"

definition deltaKey :: "int \<Rightarrow> int \<Rightarrow> string" where
  "deltaKey dr dc = show_int dr @ '','' @ show_int dc"

definition DELTA_TO_DIR :: "(string, ArrowDir) js_map" where
  "DELTA_TO_DIR = Map_new (map (\<lambda>d. case DIR_VECTORS d of (dr, dc) \<Rightarrow> (deltaKey dr dc, d)) ALL_DIRECTIONS)"

definition directionBetween :: "Point \<Rightarrow> Point \<Rightarrow> ArrowDir option" where
  "directionBetween from to =
     (let dr = row to - row from; dc = col to - col from
      in Map_get DELTA_TO_DIR (deltaKey dr dc))"

definition buildAllPoints :: "int \<Rightarrow> int \<Rightarrow> Point list" where
  "buildAllPoints nrows ncols =
     concat (map (\<lambda>r. map (\<lambda>c. \<lparr>row = r, col = c\<rparr>) [0..ncols - 1]) [0..nrows - 1])"

subsection \<open>The growth-tree generator\<close>

record GrowthTree =
  root :: Point
  childrenByKey :: "(string, Point list) js_map"

text \<open>
  The local objects of \<^verbatim>\<open>buildRandomGrowthTree\<close> that its loop mutates, together
  with the tree under construction and the number of calls made to the random source.
\<close>

record grow_state = GrowthTree +
  inTree :: "string js_set"
  unassigned :: "string js_set"
  outCount :: "(string, int) js_map"
  rngCalls :: nat

datatype ('s, 'r) loop_step = Continue 's | Return 'r

definition expandable ::
  "int \<Rightarrow> int \<Rightarrow> int \<Rightarrow> (string, Point) js_map \<Rightarrow> grow_state \<Rightarrow> string \<Rightarrow> bool" where
  "expandable nrows ncols maxd pointByKey st k =
     (if (case Map_get (outCount st) k of None \<Rightarrow> 0 | Some cnt \<Rightarrow> cnt) \<ge> maxd then False
      else case Map_get pointByKey k of
             None \<Rightarrow> False
           | Some point \<Rightarrow>
               list_ex (\<lambda>neighbor. Set_has (unassigned st) (key neighbor))
                 (getNeighborEntries (row point) (col point) nrows ncols))"

definition attach :: "grow_state \<Rightarrow> string \<Rightarrow> string \<Rightarrow> Point \<Rightarrow> nat \<Rightarrow> grow_state" where
  "attach st parentKey childKey child n =
     (let children' = (case Map_get (childrenByKey st) parentKey of
                         None \<Rightarrow> childrenByKey st
                       | Some kids \<Rightarrow> Map_set (childrenByKey st) parentKey (kids @ [child]));
          out1 = Map_set (outCount st) parentKey
                   ((case Map_get (outCount st) parentKey of None \<Rightarrow> 0 | Some cnt \<Rightarrow> cnt) + 1);
          out2 = Map_set out1 childKey (case Map_get out1 childKey of None \<Rightarrow> 0 | Some cnt \<Rightarrow> cnt)
      in st\<lparr>childrenByKey := children',
            outCount := out2,
            inTree := Set_add (inTree st) childKey,
            unassigned := Set_delete (unassigned st) childKey,
            rngCalls := n\<rparr>)"

text \<open>
  One pass through the body of the \<^verbatim>\<open>while\<close> loop: \<open>Return\<close> where the source
  returns or throws, \<open>Continue\<close> where it goes round again (the \<^verbatim>\<open>continue\<close>
  statement and the end of the body).
\<close>

definition grow_step ::
  "int \<Rightarrow> int \<Rightarrow> int \<Rightarrow> rng \<Rightarrow> (string, Point) js_map \<Rightarrow> grow_state
    \<Rightarrow> (grow_state, error + (GrowthTree option \<times> nat)) loop_step" where
  "grow_step nrows ncols maxd rng pointByKey st =
     (let expandableParents = filter (expandable nrows ncols maxd pointByKey st) (inTree st) in
      if length expandableParents = 0 then Return (Inr (None, rngCalls st))
      else
        case chooseRandom expandableParents rng (rngCalls st) of
          (None, n1) \<Rightarrow> Return (Inr (None, n1))
        | (Some parentKey, n1) \<Rightarrow>
            (case Map_get pointByKey parentKey of
               None \<Rightarrow> Return (Inr (None, n1))
             | Some parent \<Rightarrow>
                 (let nextCandidates =
                        filter (\<lambda>neighbor. Set_has (unassigned st) (key neighbor))
                          (getNeighborEntries (row parent) (col parent) nrows ncols)
                  in if length nextCandidates = 0 then Continue (st\<lparr>rngCalls := n1\<rparr>)
                     else
                       case chooseRandom nextCandidates rng n1 of
                         (None, n2) \<Rightarrow> Return (Inl TypeError)
                       | (Some childEntry, n2) \<Rightarrow>
                           (case Map_get pointByKey (key childEntry) of
                              None \<Rightarrow> Return (Inr (None, n2))
                            | Some child \<Rightarrow>
                                Continue (attach st parentKey (key childEntry) child n2)))))"

lemma array_get_mem: "array_get xs i = Some x \<Longrightarrow> x \<in> set xs"
  by (auto simp: array_get_def split: if_splits)

lemma chooseRandom_mem: "chooseRandom vals rng n = (Some x, n') \<Longrightarrow> x \<in> set vals"
  by (auto simp: chooseRandom_def randomInt_def dest: array_get_mem)

lemma Set_delete_less: "Set_has s x \<Longrightarrow> length (Set_delete s x) < length s"
  by (simp add: Set_has_def Set_delete_def length_removeAll_less)

lemma expandable_candidates:
  assumes "expandable nrows ncols maxd pointByKey st k" and "Map_get pointByKey k = Some parent"
  shows "filter (\<lambda>neighbor. Set_has (unassigned st) (key neighbor))
           (getNeighborEntries (row parent) (col parent) nrows ncols) \<noteq> []"
  using assms
  by (auto simp: expandable_def list_ex_iff filter_empty_conv split: if_splits)

lemma grow_step_decreases:
  assumes "grow_step nrows ncols maxd rng pointByKey st = Continue st'"
  shows "length (unassigned st') < length (unassigned st)"
proof -
  let ?ps = "filter (expandable nrows ncols maxd pointByKey st) (inTree st)"
  from assms obtain parentKey n1 parent where
    c1: "chooseRandom ?ps rng (rngCalls st) = (Some parentKey, n1)" and
    p: "Map_get pointByKey parentKey = Some parent"
    by (auto simp: grow_step_def Let_def split: if_splits prod.splits option.splits)
  let ?cs = "filter (\<lambda>neighbor. Set_has (unassigned st) (key neighbor))
               (getNeighborEntries (row parent) (col parent) nrows ncols)"
  from c1 have "parentKey \<in> set ?ps" by (rule chooseRandom_mem)
  then have "expandable nrows ncols maxd pointByKey st parentKey" by simp
  then have ne: "?cs \<noteq> []" using p by (rule expandable_candidates)
  with assms c1 p obtain childEntry n2 child where
    c2: "chooseRandom ?cs rng n1 = (Some childEntry, n2)" and
    st': "st' = attach st parentKey (key childEntry) child n2"
    by (auto simp: grow_step_def Let_def split: if_splits prod.splits option.splits)
  from c2 have "childEntry \<in> set ?cs" by (rule chooseRandom_mem)
  then have "Set_has (unassigned st) (key childEntry)" by simp
  then show ?thesis
    unfolding st' by (simp add: attach_def Let_def Set_delete_less)
qed

function grow_loop ::
  "int \<Rightarrow> int \<Rightarrow> int \<Rightarrow> rng \<Rightarrow> (string, Point) js_map \<Rightarrow> grow_state
    \<Rightarrow> error + (GrowthTree option \<times> nat)" where
  "grow_loop nrows ncols maxd rng pointByKey st =
     (if Set_size (unassigned st) > 0 then
        (case grow_step nrows ncols maxd rng pointByKey st of
           Return result \<Rightarrow> result
         | Continue st' \<Rightarrow> grow_loop nrows ncols maxd rng pointByKey st')
      else Inr (Some (GrowthTree.truncate st), rngCalls st))"
  by pat_completeness auto
termination
  by (relation "measure (\<lambda>(nrows, ncols, maxd, rng, pointByKey, st). length (unassigned st))")
     (simp_all add: grow_step_decreases)

declare grow_loop.simps [simp del]

definition buildRandomGrowthTree ::
  "int \<Rightarrow> int \<Rightarrow> int \<Rightarrow> rng \<Rightarrow> nat \<Rightarrow> error + (GrowthTree option \<times> nat)" where
  "buildRandomGrowthTree nrows ncols maxd rng n =
     (let allPoints = buildAllPoints nrows ncols in
      if length allPoints = 0 then Inr (None, n)
      else
        case chooseRandom allPoints rng n of
          (None, n1) \<Rightarrow> Inl TypeError
        | (Some rootPoint, n1) \<Rightarrow>
            (let rootKey = coordKey (row rootPoint) (col rootPoint);
                 pointByKey = Map_new (map (\<lambda>point. (coordKey (row point) (col point), point)) allPoints)
             in grow_loop nrows ncols maxd rng pointByKey
                  \<lparr>root = rootPoint,
                   childrenByKey = Map_new (map (\<lambda>point. (coordKey (row point) (col point), [])) allPoints),
                   inTree = Set_new [rootKey],
                   unassigned = Set_delete (Set_new (map fst pointByKey)) rootKey,
                   outCount = Map_new [(rootKey, 0)],
                   rngCalls = n1\<rparr>))"

subsection \<open>The arrow layout builder\<close>

record Grid =
  rows :: int
  cols :: int

text \<open>
  \<^verbatim>\<open>DifficultyConfig\<close> and \<^verbatim>\<open>PuzzleState\<close> both carry \<^verbatim>\<open>rows\<close> and
  \<^verbatim>\<open>cols\<close>; both records extend \<open>Grid\<close>.
\<close>

record DifficultyConfig = Grid +
  maxDirs :: int
  extraDirChance :: rat
  leafDecoyChance :: rat

record PuzzleState = Grid +
  serial :: int
  difficulty :: DifficultyId
  initialBlocks :: "ArrowBlock list"
  solutionStartId :: string

fun DIFFICULTY_CONFIGS :: "DifficultyId \<Rightarrow> DifficultyConfig" where
  "DIFFICULTY_CONFIGS Easy =
     \<lparr>rows = 5, cols = 5, maxDirs = 2, extraDirChance = 12 / 100, leafDecoyChance = 84 / 100\<rparr>"
| "DIFFICULTY_CONFIGS Normal =
     \<lparr>rows = 6, cols = 6, maxDirs = 2, extraDirChance = 14 / 100, leafDecoyChance = 8 / 10\<rparr>"
| "DIFFICULTY_CONFIGS Hard =
     \<lparr>rows = 7, cols = 7, maxDirs = 2, extraDirChance = 16 / 100, leafDecoyChance = 76 / 100\<rparr>"
| "DIFFICULTY_CONFIGS Expert =
     \<lparr>rows = 8, cols = 8, maxDirs = 2, extraDirChance = 18 / 100, leafDecoyChance = 72 / 100\<rparr>"
| "DIFFICULTY_CONFIGS Master =
     \<lparr>rows = 9, cols = 9, maxDirs = 2, extraDirChance = 2 / 10, leafDecoyChance = 68 / 100\<rparr>"

definition GENERATE_RETRIES :: int where "GENERATE_RETRIES = 220"
definition TARGET_MAX_WINNERS :: int where "TARGET_MAX_WINNERS = 2"
definition WINNER_SCAN_STOP :: int where "WINNER_SCAN_STOP = TARGET_MAX_WINNERS + 1"

definition arrowId :: "int \<Rightarrow> int \<Rightarrow> int \<Rightarrow> string" where
  "arrowId ser r c = ''arrow-'' @ show_int ser @ ''-'' @ show_int r @ ''-'' @ show_int c"

text \<open>The directions towards the children of a cell in the tree.\<close>

definition child_dirs :: "Point \<Rightarrow> Point list \<Rightarrow> ArrowDir js_set" where
  "child_dirs point children =
     foldl (\<lambda>ds child. case directionBetween point child of None \<Rightarrow> ds | Some d \<Rightarrow> Set_add ds d)
       [] children"

text \<open>
  \<^verbatim>\<open>if (dirs.size < config.maxDirs && rng() < config.extraDirChance)\<close>: the random
  source is called only when the first test holds.
\<close>

definition add_extra ::
  "DifficultyConfig \<Rightarrow> rng \<Rightarrow> int \<Rightarrow> int \<Rightarrow> ArrowDir js_set \<Rightarrow> nat
    \<Rightarrow> error + (ArrowDir js_set \<times> nat)" where
  "add_extra config rng r c ds n =
     (if Set_size ds < maxDirs config then
        (if rng n < extraDirChance config then
           (let extraCandidates =
                  filter (\<lambda>d. \<not> Set_has ds d)
                    (map entryDir (getNeighborEntries r c (rows config) (cols config)))
            in if length extraCandidates > 0 then
                 (case chooseRandom extraCandidates rng (Suc n) of
                    (None, n') \<Rightarrow> Inl UndefinedValue
                  | (Some d, n') \<Rightarrow> Inr (Set_add ds d, n'))
               else Inr (ds, Suc n))
         else Inr (ds, Suc n))
      else Inr (ds, n))"

definition add_neighbor_dir ::
  "DifficultyConfig \<Rightarrow> rng \<Rightarrow> int \<Rightarrow> int \<Rightarrow> ArrowDir js_set \<Rightarrow> nat
    \<Rightarrow> error + (ArrowDir js_set \<times> nat)" where
  "add_neighbor_dir config rng r c ds n =
     (let neighbors = map entryDir (getNeighborEntries r c (rows config) (cols config))
      in if length neighbors > 0 then
           (case chooseRandom neighbors rng n of
              (None, n') \<Rightarrow> Inl UndefinedValue
            | (Some d, n') \<Rightarrow> Inr (Set_add ds d, n'))
         else Inr (ds, n))"

definition add_leaf_decoy ::
  "DifficultyConfig \<Rightarrow> rng \<Rightarrow> int \<Rightarrow> int \<Rightarrow> ArrowDir js_set \<Rightarrow> nat
    \<Rightarrow> error + (ArrowDir js_set \<times> nat)" where
  "add_leaf_decoy config rng r c ds n =
     (if Set_size ds = 0 then
        (if rng n < leafDecoyChance config then add_neighbor_dir config rng r c ds (Suc n)
         else Inr (ds, Suc n))
      else Inr (ds, n))"

definition add_forced ::
  "DifficultyConfig \<Rightarrow> rng \<Rightarrow> int \<Rightarrow> int \<Rightarrow> ArrowDir js_set \<Rightarrow> nat
    \<Rightarrow> error + (ArrowDir js_set \<times> nat)" where
  "add_forced config rng r c ds n =
     (if Set_size ds = 0 then add_neighbor_dir config rng r c ds n else Inr (ds, n))"

text \<open>The body of the two nested \<^verbatim>\<open>for\<close> loops: the block of the cell \<open>(r, c)\<close>.\<close>

definition cell_block ::
  "GrowthTree \<Rightarrow> int \<Rightarrow> DifficultyConfig \<Rightarrow> rng \<Rightarrow> int \<Rightarrow> int \<Rightarrow> nat
    \<Rightarrow> error + (ArrowBlock \<times> nat)" where
  "cell_block tree ser config rng r c n =
     (let point = \<lparr>row = r, col = c\<rparr>;
          children = (case Map_get (childrenByKey tree) (coordKey r c) of None \<Rightarrow> [] | Some kids \<Rightarrow> kids);
          ds0 = child_dirs point children
      in case add_extra config rng r c ds0 n of
           Inl e \<Rightarrow> Inl e
         | Inr (ds1, n1) \<Rightarrow>
        (case add_leaf_decoy config rng r c ds1 n1 of
           Inl e \<Rightarrow> Inl e
         | Inr (ds2, n2) \<Rightarrow>
        (case add_forced config rng r c ds2 n2 of
           Inl e \<Rightarrow> Inl e
         | Inr (ds3, n3) \<Rightarrow>
        (case shuffle ds3 rng n3 of
           Inl e \<Rightarrow> Inl e
         | Inr (shuffled, n4) \<Rightarrow>
             Inr (\<lparr>row = r, col = c, blockId = arrowId ser r c, dirs = shuffled\<rparr>, n4)))))"

text \<open>The nested loops visit the cells row by row; \<open>blocks\<close> is the array pushed to.\<close>

fun sparse_cells ::
  "GrowthTree \<Rightarrow> int \<Rightarrow> DifficultyConfig \<Rightarrow> rng \<Rightarrow> (int \<times> int) list \<Rightarrow> ArrowBlock list \<Rightarrow> nat
    \<Rightarrow> error + (ArrowBlock list \<times> nat)" where
  "sparse_cells tree ser config rng [] blocks n = Inr (blocks, n)"
| "sparse_cells tree ser config rng ((r, c) # cells) blocks n =
     (case cell_block tree ser config rng r c n of
        Inl e \<Rightarrow> Inl e
      | Inr (block, n') \<Rightarrow> sparse_cells tree ser config rng cells (blocks @ [block]) n')"

definition grid_cells :: "int \<Rightarrow> int \<Rightarrow> (int \<times> int) list" where
  "grid_cells nrows ncols = concat (map (\<lambda>r. map (\<lambda>c. (r, c)) [0..ncols - 1]) [0..nrows - 1])"

definition createSparseBlocksFromTree ::
  "GrowthTree \<Rightarrow> int \<Rightarrow> DifficultyConfig \<Rightarrow> rng \<Rightarrow> nat \<Rightarrow> error + (ArrowBlock list \<times> nat)" where
  "createSparseBlocksFromTree tree ser config rng n =
     sparse_cells tree ser config rng (grid_cells (rows config) (cols config)) [] n"

subsection \<open>The search loop\<close>

fun winners_loop ::
  "ArrowBlock list \<Rightarrow> int \<Rightarrow> int \<Rightarrow> int \<Rightarrow> ArrowBlock list \<Rightarrow> string list \<Rightarrow> string list" where
  "winners_loop blocks nrows ncols stopAfter [] winners = winners"
| "winners_loop blocks nrows ncols stopAfter (block # rest) winners =
     (if \<not> success (simulateAttempt blocks (blockId block) nrows ncols)
      then winners_loop blocks nrows ncols stopAfter rest winners
      else (let winners' = winners @ [blockId block]
            in if int (length winners') \<ge> stopAfter then winners'
               else winners_loop blocks nrows ncols stopAfter rest winners'))"

definition collectWinningStarts :: "ArrowBlock list \<Rightarrow> int \<Rightarrow> int \<Rightarrow> int \<Rightarrow> string list" where
  "collectWinningStarts blocks nrows ncols stopAfter =
     winners_loop blocks nrows ncols stopAfter blocks []"

text \<open>
  The \<^verbatim>\<open>fallback\<close> object \<^verbatim>\<open>{blocks, solutionStartId, winnerCount}\<close> is a triple.
  The \<^verbatim>\<open>for\<close> loop of \<^verbatim>\<open>createPuzzle\<close> either returns a puzzle from inside
  (\<open>Accepted\<close>) or runs out of attempts and leaves its fallback (\<open>Exhausted\<close>).
\<close>

type_synonym fallback = "ArrowBlock list \<times> string \<times> int"

datatype gen_outcome = Accepted PuzzleState | Exhausted "fallback option"

definition make_puzzle :: "DifficultyId \<Rightarrow> int \<Rightarrow> ArrowBlock list \<Rightarrow> string \<Rightarrow> PuzzleState" where
  "make_puzzle dif ser blocks startId =
     \<lparr>rows = rows (DIFFICULTY_CONFIGS dif), cols = cols (DIFFICULTY_CONFIGS dif),
      serial = ser, difficulty = dif, initialBlocks = blocks, solutionStartId = startId\<rparr>"

definition better_fallback :: "fallback option \<Rightarrow> ArrowBlock list \<Rightarrow> string \<Rightarrow> int \<Rightarrow> fallback option" where
  "better_fallback fb blocks startId winnerCount =
     (case fb of
        None \<Rightarrow> Some (blocks, startId, winnerCount)
      | Some (fblocks, fstart, fcount) \<Rightarrow>
          if winnerCount < fcount then Some (blocks, startId, winnerCount) else fb)"

text \<open>
  One pass through the body of the \<^verbatim>\<open>for\<close> loop, from a fallback and a number of
  calls made to the random source: \<open>Return\<close> where the source returns the puzzle or
  throws, \<open>Continue\<close> where it goes on to the next attempt (the two \<^verbatim>\<open>continue\<close>
  statements and the end of the body).
\<close>

definition gen_step ::
  "DifficultyId \<Rightarrow> rng \<Rightarrow> int \<Rightarrow> fallback option \<Rightarrow> nat
    \<Rightarrow> (fallback option \<times> nat, error + PuzzleState) loop_step" where
  "gen_step dif rng ser fb n =
     (let config = DIFFICULTY_CONFIGS dif in
      case buildRandomGrowthTree (rows config) (cols config) (maxDirs config) rng n of
        Inl e \<Rightarrow> Return (Inl e)
      | Inr (None, n1) \<Rightarrow> Continue (fb, n1)
      | Inr (Some tree, n1) \<Rightarrow>
          (case createSparseBlocksFromTree tree ser config rng n1 of
             Inl e \<Rightarrow> Return (Inl e)
           | Inr (blocks, n2) \<Rightarrow>
               (let startId = arrowId ser (row (root tree)) (col (root tree));
                    rootValidation = simulateAttempt blocks startId (rows config) (cols config)
                in if \<not> success rootValidation then Continue (fb, n2)
                   else
                     (let winners = collectWinningStarts blocks (rows config) (cols config) WINNER_SCAN_STOP;
                          winnerCount = int (length winners);
                          fb' = better_fallback fb blocks startId winnerCount
                      in if winnerCount \<le> TARGET_MAX_WINNERS
                         then Return (Inr (make_puzzle dif ser blocks startId))
                         else Continue (fb', n2)))))"

function gen_loop ::
  "DifficultyId \<Rightarrow> rng \<Rightarrow> int \<Rightarrow> int \<Rightarrow> fallback option \<Rightarrow> nat \<Rightarrow> error + gen_outcome" where
  "gen_loop dif rng ser attempt fb n =
     (if attempt < GENERATE_RETRIES then
        (case gen_step dif rng ser fb n of
           Return (Inl e) \<Rightarrow> Inl e
         | Return (Inr puzzle) \<Rightarrow> Inr (Accepted puzzle)
         | Continue (fb', n') \<Rightarrow> gen_loop dif rng ser (attempt + 1) fb' n')
      else Inr (Exhausted fb))"
  by pat_completeness auto
termination
  by (relation "measure (\<lambda>(dif, rng, ser, attempt, fb, n). nat (GENERATE_RETRIES - attempt))")
     simp_all

declare gen_loop.simps [simp del]

text \<open>
  The last resort of \<^verbatim>\<open>createPuzzle\<close>: one arrow per cell, chosen by the constant
  source \<^verbatim>\<open>() => 0.5\<close>.
\<close>

fun basic_blocks :: "int \<Rightarrow> DifficultyConfig \<Rightarrow> Point list \<Rightarrow> error + ArrowBlock list" where
  "basic_blocks ser config [] = Inr []"
| "basic_blocks ser config (point # points) =
     (case chooseRandom
             (map entryDir (getNeighborEntries (row point) (col point) (rows config) (cols config)))
             (\<lambda>_. 1 / 2) 0 of
        (None, _) \<Rightarrow> Inl UndefinedValue
      | (Some d, _) \<Rightarrow>
          (case basic_blocks ser config points of
             Inl e \<Rightarrow> Inl e
           | Inr blocks \<Rightarrow>
               Inr (\<lparr>row = row point, col = col point,
                     blockId = arrowId ser (row point) (col point), dirs = [d]\<rparr> # blocks)))"

definition last_resort :: "DifficultyId \<Rightarrow> int \<Rightarrow> error + PuzzleState" where
  "last_resort dif ser =
     (let config = DIFFICULTY_CONFIGS dif in
      case basic_blocks ser config (buildAllPoints (rows config) (cols config)) of
        Inl e \<Rightarrow> Inl e
      | Inr basicBlocks \<Rightarrow>
          (case array_get basicBlocks 0 of
             None \<Rightarrow> Inl TypeError
           | Some first \<Rightarrow> Inr (make_puzzle dif ser basicBlocks (blockId first))))"

definition emergency :: "DifficultyId \<Rightarrow> int \<Rightarrow> error + PuzzleState" where
  "emergency dif ser =
     (let config = DIFFICULTY_CONFIGS dif in
      case buildRandomGrowthTree (rows config) (cols config) 1 (\<lambda>_. 1 / 2) 0 of
        Inl e \<Rightarrow> Inl e
      | Inr (Some emergencyTree, _) \<Rightarrow>
          (let emergencyConfig = config\<lparr>maxDirs := 1, extraDirChance := 0, leafDecoyChance := 1 / 2\<rparr>
           in case createSparseBlocksFromTree emergencyTree ser emergencyConfig (\<lambda>_. 7 / 10) 0 of
                Inl e \<Rightarrow> Inl e
              | Inr (emergencyBlocks, _) \<Rightarrow>
                  Inr (make_puzzle dif ser emergencyBlocks
                         (arrowId ser (row (root emergencyTree)) (col (root emergencyTree)))))
      | Inr (None, _) \<Rightarrow> last_resort dif ser)"

definition createPuzzle :: "DifficultyId \<Rightarrow> rng \<Rightarrow> int \<Rightarrow> error + PuzzleState" where
  "createPuzzle dif rng ser =
     (case gen_loop dif rng ser 0 None 0 of
        Inl e \<Rightarrow> Inl e
      | Inr (Accepted puzzle) \<Rightarrow> Inr puzzle
      | Inr (Exhausted (Some (fblocks, fstart, fcount))) \<Rightarrow> Inr (make_puzzle dif ser fblocks fstart)
      | Inr (Exhausted None) \<Rightarrow> emergency dif ser)"

subsection \<open>The session\<close>

record RayVisual =
  rayId :: string
  rayFrom :: "rat \<times> rat"
  rayTo :: "rat \<times> rat"
  hit :: bool

text \<open>
  The state of the component: its React state variables and the counter
  \<^verbatim>\<open>animationRunRef.current\<close>.
\<close>

record session =
  puzzle :: PuzzleState
  blocks :: "ArrowBlock list"
  attempts :: int
  phase :: GamePhase
  resolveResult :: "ResolveResult option"
  activeBlockIds :: "string list"
  hitBlockIds :: "string list"
  rayVisuals :: "RayVisual list"
  showSuccessModal :: bool
  hintStartId :: "string option"
  animationRun :: int

text \<open>
  \<^verbatim>\<open>playAttempt\<close> up to the point where it starts the timed playback: the state
  the synchronous part of the call leaves. The playback itself (an asynchronous task
  paced by timers) is not part of the model.
\<close>

definition playAttempt :: "session \<Rightarrow> string \<Rightarrow> session" where
  "playAttempt s startId =
     (if phase s = Animating \<or> length (blocks s) = 0 then s
      else if \<not> list_ex (\<lambda>block. blockId block = startId) (blocks s) then s
      else
        (let attempt = simulateAttempt (blocks s) startId (rows (puzzle s)) (cols (puzzle s))
         in if length (waves attempt) = 0 then s
            else s\<lparr>animationRun := animationRun s + 1,
                   attempts := attempts s + 1,
                   showSuccessModal := False,
                   resolveResult := None,
                   hintStartId := None,
                   phase := Animating,
                   activeBlockIds := [],
                   hitBlockIds := [],
                   rayVisuals := []\<rparr>))"

section \<open>Inputs of the scenarios\<close>

text \<open>
  Scenario A: the 2 by 2 layout whose arrows form the cycle
  (0,0) E, (0,1) S, (1,1) W, (1,0) N, listed row by row.
\<close>

definition scenarioA :: "ArrowBlock list" where
  "scenarioA =
     [\<lparr>row = 0, col = 0, blockId = ''a'', dirs = [E]\<rparr>,
      \<lparr>row = 0, col = 1, blockId = ''b'', dirs = [S]\<rparr>,
      \<lparr>row = 1, col = 0, blockId = ''d'', dirs = [N]\<rparr>,
      \<lparr>row = 1, col = 1, blockId = ''c'', dirs = [W]\<rparr>]"

text \<open>An idle session on that layout.\<close>

definition idle_session :: session where
  "idle_session =
     \<lparr>puzzle = \<lparr>rows = 2, cols = 2, serial = 1, difficulty = Easy,
                 initialBlocks = scenarioA, solutionStartId = ''a''\<rparr>,
      blocks = scenarioA, attempts = 0, phase = Idle, resolveResult = None,
      activeBlockIds = [], hitBlockIds = [], rayVisuals = [], showSuccessModal = False,
      hintStartId = None, animationRun = 0\<rparr>"

text \<open>
  A run of the generator that is accepted at its first attempt: difficulty easy, serial 1
  and the random source that always returns 7/8. The tree it grows is a path from the
  cell (4,1) through all 25 cells, and the layout built on it has one arrow per block.
\<close>

definition accepted_tree :: GrowthTree where
  "accepted_tree =
     \<lparr>root = \<lparr>row = 4, col = 1\<rparr>, childrenByKey = [(''0:0'', [\<lparr>row = 0, col = 1\<rparr>]),
      (''0:1'', [\<lparr>row = 1, col = 2\<rparr>]),
      (''0:2'', [\<lparr>row = 0, col = 3\<rparr>]),
      (''0:3'', [\<lparr>row = 1, col = 4\<rparr>]),
      (''0:4'', []),
      (''1:0'', [\<lparr>row = 1, col = 1\<rparr>]),
      (''1:1'', [\<lparr>row = 0, col = 0\<rparr>]),
      (''1:2'', [\<lparr>row = 2, col = 2\<rparr>]),
      (''1:3'', [\<lparr>row = 0, col = 2\<rparr>]),
      (''1:4'', [\<lparr>row = 0, col = 4\<rparr>]),
      (''2:0'', [\<lparr>row = 2, col = 1\<rparr>]),
      (''2:1'', [\<lparr>row = 1, col = 0\<rparr>]),
      (''2:2'', [\<lparr>row = 3, col = 2\<rparr>]),
      (''2:3'', [\<lparr>row = 2, col = 4\<rparr>]),
      (''2:4'', [\<lparr>row = 1, col = 3\<rparr>]),
      (''3:0'', [\<lparr>row = 4, col = 0\<rparr>]),
      (''3:1'', [\<lparr>row = 2, col = 0\<rparr>]),
      (''3:2'', [\<lparr>row = 4, col = 2\<rparr>]),
      (''3:3'', [\<lparr>row = 3, col = 4\<rparr>]),
      (''3:4'', [\<lparr>row = 2, col = 3\<rparr>]),
      (''4:0'', [\<lparr>row = 3, col = 1\<rparr>]),
      (''4:1'', [\<lparr>row = 3, col = 0\<rparr>]),
      (''4:2'', [\<lparr>row = 4, col = 3\<rparr>]),
      (''4:3'', [\<lparr>row = 4, col = 4\<rparr>]),
      (''4:4'', [\<lparr>row = 3, col = 3\<rparr>])]\<rparr>"

definition accepted_layout :: "ArrowBlock list" where
  "accepted_layout =
     [\<lparr>row = 0, col = 0, blockId = ''arrow-1-0-0'', dirs = [E]\<rparr>,
      \<lparr>row = 0, col = 1, blockId = ''arrow-1-0-1'', dirs = [SE]\<rparr>,
      \<lparr>row = 0, col = 2, blockId = ''arrow-1-0-2'', dirs = [E]\<rparr>,
      \<lparr>row = 0, col = 3, blockId = ''arrow-1-0-3'', dirs = [SE]\<rparr>,
      \<lparr>row = 0, col = 4, blockId = ''arrow-1-0-4'', dirs = [W]\<rparr>,
      \<lparr>row = 1, col = 0, blockId = ''arrow-1-1-0'', dirs = [E]\<rparr>,
      \<lparr>row = 1, col = 1, blockId = ''arrow-1-1-1'', dirs = [NW]\<rparr>,
      \<lparr>row = 1, col = 2, blockId = ''arrow-1-1-2'', dirs = [S]\<rparr>,
      \<lparr>row = 1, col = 3, blockId = ''arrow-1-1-3'', dirs = [NW]\<rparr>,
      \<lparr>row = 1, col = 4, blockId = ''arrow-1-1-4'', dirs = [N]\<rparr>,
      \<lparr>row = 2, col = 0, blockId = ''arrow-1-2-0'', dirs = [E]\<rparr>,
      \<lparr>row = 2, col = 1, blockId = ''arrow-1-2-1'', dirs = [NW]\<rparr>,
      \<lparr>row = 2, col = 2, blockId = ''arrow-1-2-2'', dirs = [S]\<rparr>,
      \<lparr>row = 2, col = 3, blockId = ''arrow-1-2-3'', dirs = [E]\<rparr>,
      \<lparr>row = 2, col = 4, blockId = ''arrow-1-2-4'', dirs = [NW]\<rparr>,
      \<lparr>row = 3, col = 0, blockId = ''arrow-1-3-0'', dirs = [S]\<rparr>,
      \<lparr>row = 3, col = 1, blockId = ''arrow-1-3-1'', dirs = [NW]\<rparr>,
      \<lparr>row = 3, col = 2, blockId = ''arrow-1-3-2'', dirs = [S]\<rparr>,
      \<lparr>row = 3, col = 3, blockId = ''arrow-1-3-3'', dirs = [E]\<rparr>,
      \<lparr>row = 3, col = 4, blockId = ''arrow-1-3-4'', dirs = [NW]\<rparr>,
      \<lparr>row = 4, col = 0, blockId = ''arrow-1-4-0'', dirs = [NE]\<rparr>,
      \<lparr>row = 4, col = 1, blockId = ''arrow-1-4-1'', dirs = [NW]\<rparr>,
      \<lparr>row = 4, col = 2, blockId = ''arrow-1-4-2'', dirs = [E]\<rparr>,
      \<lparr>row = 4, col = 3, blockId = ''arrow-1-4-3'', dirs = [E]\<rparr>,
      \<lparr>row = 4, col = 4, blockId = ''arrow-1-4-4'', dirs = [NW]\<rparr>]"

definition accepted_root :: ArrowBlock where
  "accepted_root = \<lparr>row = 4, col = 1, blockId = ''arrow-1-4-1'', dirs = [NW]\<rparr>"

definition accepted_puzzle :: PuzzleState where
  "accepted_puzzle = make_puzzle Easy 1 accepted_layout ''arrow-1-4-1''"

text \<open>
  The last-resort layout of \<^verbatim>\<open>createPuzzle\<close> for difficulty easy and serial 1.
\<close>

definition last_resort_layout :: "ArrowBlock list" where
  "last_resort_layout =
     [\<lparr>row = 0, col = 0, blockId = ''arrow-1-0-0'', dirs = [SE]\<rparr>,
      \<lparr>row = 0, col = 1, blockId = ''arrow-1-0-1'', dirs = [S]\<rparr>,
      \<lparr>row = 0, col = 2, blockId = ''arrow-1-0-2'', dirs = [S]\<rparr>,
      \<lparr>row = 0, col = 3, blockId = ''arrow-1-0-3'', dirs = [S]\<rparr>,
      \<lparr>row = 0, col = 4, blockId = ''arrow-1-0-4'', dirs = [SW]\<rparr>,
      \<lparr>row = 1, col = 0, blockId = ''arrow-1-1-0'', dirs = [E]\<rparr>,
      \<lparr>row = 1, col = 1, blockId = ''arrow-1-1-1'', dirs = [S]\<rparr>,
      \<lparr>row = 1, col = 2, blockId = ''arrow-1-1-2'', dirs = [S]\<rparr>,
      \<lparr>row = 1, col = 3, blockId = ''arrow-1-1-3'', dirs = [S]\<rparr>,
      \<lparr>row = 1, col = 4, blockId = ''arrow-1-1-4'', dirs = [SW]\<rparr>,
      \<lparr>row = 2, col = 0, blockId = ''arrow-1-2-0'', dirs = [E]\<rparr>,
      \<lparr>row = 2, col = 1, blockId = ''arrow-1-2-1'', dirs = [S]\<rparr>,
      \<lparr>row = 2, col = 2, blockId = ''arrow-1-2-2'', dirs = [S]\<rparr>,
      \<lparr>row = 2, col = 3, blockId = ''arrow-1-2-3'', dirs = [S]\<rparr>,
      \<lparr>row = 2, col = 4, blockId = ''arrow-1-2-4'', dirs = [SW]\<rparr>,
      \<lparr>row = 3, col = 0, blockId = ''arrow-1-3-0'', dirs = [E]\<rparr>,
      \<lparr>row = 3, col = 1, blockId = ''arrow-1-3-1'', dirs = [S]\<rparr>,
      \<lparr>row = 3, col = 2, blockId = ''arrow-1-3-2'', dirs = [S]\<rparr>,
      \<lparr>row = 3, col = 3, blockId = ''arrow-1-3-3'', dirs = [S]\<rparr>,
      \<lparr>row = 3, col = 4, blockId = ''arrow-1-3-4'', dirs = [SW]\<rparr>,
      \<lparr>row = 4, col = 0, blockId = ''arrow-1-4-0'', dirs = [NE]\<rparr>,
      \<lparr>row = 4, col = 1, blockId = ''arrow-1-4-1'', dirs = [E]\<rparr>,
      \<lparr>row = 4, col = 2, blockId = ''arrow-1-4-2'', dirs = [E]\<rparr>,
      \<lparr>row = 4, col = 3, blockId = ''arrow-1-4-3'', dirs = [E]\<rparr>,
      \<lparr>row = 4, col = 4, blockId = ''arrow-1-4-4'', dirs = [W]\<rparr>]"

definition last_resort_puzzle :: PuzzleState where
  "last_resort_puzzle = make_puzzle Easy 1 last_resort_layout ''arrow-1-0-0''"

text \<open>
  A grid of one row and two columns, and the state of the growth loop on it when it is
  entered with the root (0,0) (one call to the random source made).
\<close>

definition two_cells :: "(string, Point) js_map" where
  "two_cells = [(''0:0'', \<lparr>row = 0, col = 0\<rparr>), (''0:1'', \<lparr>row = 0, col = 1\<rparr>)]"

definition two_cells_start :: grow_state where
  "two_cells_start =
     \<lparr>root = \<lparr>row = 0, col = 0\<rparr>,
      childrenByKey = [(''0:0'', []), (''0:1'', [])],
      inTree = [''0:0''],
      unassigned = [''0:1''],
      outCount = [(''0:0'', 0)],
      rngCalls = 1\<rparr>"

text \<open>
  A random source with values in [0,1) that repeats 31 values for ever. On the easy
  grid the 31 calls of one attempt pick the root (0,0) and then grow the tree into a
  dead end after 15 cells, so every attempt of the search starts at the same point of
  the cycle.
\<close>

definition dead_end_table :: "rat list" where
  "dead_end_table =
     [0, 0, 1 / 2, 3 / 4, 2 / 5, 1 / 2, 3 / 5, 1 / 2, 2 / 5, 2 / 5, 9 / 10, 3 / 5, 2 / 5, 1 / 2,
      9 / 10, 3 / 4, 4 / 5, 3 / 4, 0, 1 / 2, 2 / 5, 2 / 5, 9 / 10, 0, 1 / 2, 0, 9 / 10, 0, 4 / 5,
      0, 3 / 4]"

definition dead_end_rng :: rng where
  "dead_end_rng i = dead_end_table ! (i mod 31)"

text \<open>
  A list of two blocks that carry the same id, in the two cells of a grid of one row.
\<close>

definition twin_layout :: "ArrowBlock list" where
  "twin_layout =
     [\<lparr>row = 0, col = 0, blockId = ''x'', dirs = [E]\<rparr>,
      \<lparr>row = 0, col = 1, blockId = ''x'', dirs = [W]\<rparr>]"

text \<open>What the simulation of scenario A returns when it is started at the block of (1,1).\<close>

definition scenarioA_from_c :: AttemptResult where
  "scenarioA_from_c =
     \<lparr>waves =
        [\<lparr>sources = [\<lparr>fromId = ''c'', casts = [\<lparr>dir = W, toId = Some ''d'', rayCells = [(1, 0)]\<rparr>]\<rparr>]\<rparr>,
         \<lparr>sources = [\<lparr>fromId = ''d'', casts = [\<lparr>dir = N, toId = Some ''a'', rayCells = [(0, 0)]\<rparr>]\<rparr>]\<rparr>,
         \<lparr>sources = [\<lparr>fromId = ''a'', casts = [\<lparr>dir = E, toId = Some ''b'', rayCells = [(0, 1)]\<rparr>]\<rparr>]\<rparr>,
         \<lparr>sources = [\<lparr>fromId = ''b'', casts = [\<lparr>dir = S, toId = None, rayCells = [(1, 1)]\<rparr>]\<rparr>]\<rparr>],
      success = True\<rparr>"

section \<open>Notions used in the statements\<close>

text \<open>
  The \<open>k\<close>-th cell on the ray of a block along a direction (the block's own cell is
  number 0), the id a coordinate index holds at a cell, and the bounds test on a cell.
\<close>

definition ray_cell :: "ArrowBlock \<Rightarrow> ArrowDir \<Rightarrow> nat \<Rightarrow> int \<times> int" where
  "ray_cell block d k =
     (row block + int k * fst (DIR_VECTORS d), col block + int k * snd (DIR_VECTORS d))"

definition occupant :: "(string, string) js_map \<Rightarrow> int \<times> int \<Rightarrow> string option" where
  "occupant index cell = Map_get index (coordKey (fst cell) (snd cell))"

definition cell_inBounds :: "int \<times> int \<Rightarrow> int \<Rightarrow> int \<Rightarrow> bool" where
  "cell_inBounds cell nrows ncols = inBounds (fst cell) (snd cell) nrows ncols"

text \<open>
  What the truthiness test of the loop sees at a cell, and the \<open>k\<close>-th cell counted from
  the cell where the loop starts.
\<close>

definition truthy_hit :: "(string, string) js_map \<Rightarrow> int \<times> int \<Rightarrow> string option" where
  "truthy_hit index cell =
     (case occupant index cell of None \<Rightarrow> None | Some h \<Rightarrow> if h \<noteq> [] then Some h else None)"

definition step_cell :: "ArrowDir \<Rightarrow> int \<times> int \<Rightarrow> nat \<Rightarrow> int \<times> int" where
  "step_cell d start k = (fst start + int k * fst (DIR_VECTORS d), snd start + int k * snd (DIR_VECTORS d))"

text \<open>
  The trace of the loop of \<^verbatim>\<open>simulateAttempt\<close>: for every wave, the ids of the wave
  (\<^verbatim>\<open>currentWaveIds\<close>) and the state after the \<^verbatim>\<open>forEach\<close> that removes them, which
  is the state in which the rays of the wave are cast. It follows the loop step by step.
\<close>

function cast_trace :: "int \<Rightarrow> int \<Rightarrow> sim_state \<Rightarrow> (string list \<times> sim_state) list" where
  "cast_trace nrows ncols s =
     (if Set_size (frontier s) > 0 then
        (let currentWaveIds = filter (Map_has (aliveById s)) (frontier s) in
         if length currentWaveIds = 0 then []
         else (currentWaveIds, vanish currentWaveIds s)
                # cast_trace nrows ncols (wave_step nrows ncols currentWaveIds s))
      else [])"
  by pat_completeness auto
termination
  by (relation "measure (\<lambda>(nrows, ncols, s). length (aliveById s))")
     (simp_all add: wave_step_alive_less)

declare cast_trace.simps [simp del]

text \<open>The wave that the loop appends for an entry of the trace.\<close>

definition wave_of :: "int \<Rightarrow> int \<Rightarrow> string list \<times> sim_state \<Rightarrow> AttemptWave" where
  "wave_of nrows ncols entry = \<lparr>sources = cast_sources nrows ncols (fst entry) (snd entry)\<rparr>"

text \<open>A layout with unique ids and one block per cell.\<close>

definition unique_layout :: "ArrowBlock list \<Rightarrow> bool" where
  "unique_layout layout \<longleftrightarrow>
     distinct (map blockId layout) \<and> distinct (map (\<lambda>block. (row block, col block)) layout)"

text \<open>
  What the maps of the simulator hold at any time on such a layout: the alive map holds
  blocks of the layout under their own ids, and the coordinate index holds exactly the
  cells of the alive blocks.
\<close>

definition sim_inv :: "ArrowBlock list \<Rightarrow> sim_state \<Rightarrow> bool" where
  "sim_inv layout s \<longleftrightarrow>
     layoutById s = Map_new (map (\<lambda>block. (blockId block, block)) layout) \<and>
     (\<forall>i b. Map_get (aliveById s) i = Some b \<longrightarrow> b \<in> set layout \<and> blockId b = i) \<and>
     (\<forall>k i. Map_get (byCoord s) k = Some i \<longleftrightarrow>
        (\<exists>b \<in> set layout. coordKey (row b) (col b) = k \<and> blockId b = i \<and> Map_has (aliveById s) i))"

text \<open>A random source that keeps the contract of the interface: every value is in \<open>[0, 1)\<close>.\<close>

definition rng_ok :: "rng \<Rightarrow> bool" where
  "rng_ok rng \<longleftrightarrow> (\<forall>i. 0 \<le> rng i \<and> rng i < 1)"

text \<open>
  A fallback kept by the search loop is good when its layout is non-empty, every block
  has an arrow and its start was validated.
\<close>

definition good_fallback :: "DifficultyId \<Rightarrow> fallback option \<Rightarrow> bool" where
  "good_fallback dif fb =
     (case fb of
        None \<Rightarrow> True
      | Some (fblocks, fstart, fcount) \<Rightarrow>
          list_all (\<lambda>b. dirs b \<noteq> []) fblocks \<and> fblocks \<noteq> [] \<and>
          success (simulateAttempt fblocks fstart
                     (rows (DIFFICULTY_CONFIGS dif)) (cols (DIFFICULTY_CONFIGS dif))))"

text \<open>
  An arrow \<open>d\<close> of the block \<open>b\<close> points at the block \<open>x\<close> when the cell of \<open>x\<close> lies on
  the ray of \<open>b\<close> along \<open>d\<close>; a block no arrow of the layout points at can never be hit.
\<close>

definition points_at :: "ArrowBlock \<Rightarrow> ArrowDir \<Rightarrow> ArrowBlock \<Rightarrow> bool" where
  "points_at b d x =
     (let dr = row x - row b; dc = col x - col b; k = max \<bar>dr\<bar> \<bar>dc\<bar>
      in 1 \<le> k \<and> dr = k * fst (DIR_VECTORS d) \<and> dc = k * snd (DIR_VECTORS d))"

definition never_pointed_at :: "ArrowBlock list \<Rightarrow> ArrowBlock \<Rightarrow> bool" where
  "never_pointed_at layout x = list_all (\<lambda>b. list_all (\<lambda>d. \<not> points_at b d x) (dirs b)) layout"

text \<open>Reading a decimal numeral back: the value of a digit and of a digit string.\<close>

definition digit_val :: "char \<Rightarrow> nat" where
  "digit_val ch = of_char ch - 48"

definition read_nat :: "string \<Rightarrow> nat" where
  "read_nat str = foldl (\<lambda>a ch. 10 * a + digit_val ch) 0 str"

text \<open>An index that holds an empty id, and a block and an index with a block two cells away.\<close>

definition origin_block :: ArrowBlock where
  "origin_block = \<lparr>row = 0, col = 0, blockId = ''a'', dirs = [E]\<rparr>"

definition empty_id_index :: "(string, string) js_map" where
  "empty_id_index = [(coordKey 0 1, [])]"

definition far_index :: "(string, string) js_map" where
  "far_index = [(coordKey 0 2, ''x'')]"

text \<open>A block wins a puzzle when starting at it clears the board.\<close>

definition wins :: "PuzzleState \<Rightarrow> ArrowBlock \<Rightarrow> bool" where
  "wins p b = success (simulateAttempt (initialBlocks p) (blockId b) (rows p) (cols p))"

text \<open>
  The number of passes the \<^verbatim>\<open>for\<close> loop of \<^verbatim>\<open>createPuzzle\<close> makes through its
  body: \<open>gen_loop\<close> with a counter in place of its result.
\<close>

function gen_rounds ::
  "DifficultyId \<Rightarrow> rng \<Rightarrow> int \<Rightarrow> int \<Rightarrow> fallback option \<Rightarrow> nat \<Rightarrow> nat" where
  "gen_rounds dif rng ser attempt fb n =
     (if attempt < GENERATE_RETRIES then
        (case gen_step dif rng ser fb n of
           Return result \<Rightarrow> 1
         | Continue (fb', n') \<Rightarrow> 1 + gen_rounds dif rng ser (attempt + 1) fb' n')
      else 0)"
  by pat_completeness auto
termination
  by (relation "measure (\<lambda>(dif, rng, ser, attempt, fb, n). nat (GENERATE_RETRIES - attempt))")
     simp_all

declare gen_rounds.simps [simp del]

text \<open>
  A random source read from its \<open>k\<close>-th call on, and a growth state and a result of
  the generator reached \<open>k\<close> calls later.
\<close>

definition shift_rng :: "rng \<Rightarrow> nat \<Rightarrow> rng" where
  "shift_rng rng k = (\<lambda>i. rng (i + k))"

definition later :: "nat \<Rightarrow> grow_state \<Rightarrow> grow_state" where
  "later k st = st\<lparr>rngCalls := rngCalls st + k\<rparr>"

definition later_result :: "nat \<Rightarrow> error + (GrowthTree option \<times> nat) \<Rightarrow> error + (GrowthTree option \<times> nat)" where
  "later_result k res = (case res of Inl e \<Rightarrow> Inl e | Inr (t, n) \<Rightarrow> Inr (t, n + k))"

text \<open>
  The ids of the blocks of a layout whose cells are absent from the coordinate index of
  a state.
\<close>

definition absent_ids :: "ArrowBlock list \<Rightarrow> sim_state \<Rightarrow> string list" where
  "absent_ids layout s =
     map blockId (filter (\<lambda>block. \<not> Map_has (byCoord s) (coordKey (row block) (col block))) layout)"

section \<open>Containers\<close>

lemma map_of_Map_set: "map_of (Map_set m k v) = (map_of m)(k \<mapsto> v)"
  by (simp add: Map_set_def update_conv')

lemma keys_Map_set: "fst ` set (Map_set m k v) = insert k (fst ` set m)"
  by (simp add: Map_set_def dom_update)

lemma map_of_foldl_update:
  "map_of (foldl (\<lambda>m (k, v). Map_set m k v) m0 es) k =
     (case map_of (rev es) k of Some v \<Rightarrow> Some v | None \<Rightarrow> map_of m0 k)"
proof (induction es arbitrary: m0)
  case Nil
  show ?case by simp
next
  case (Cons e es)
  obtain a b where e: "e = (a, b)" by (cases e)
  show ?case
    by (simp add: Cons.IH e map_of_Map_set map_add_def split: option.splits)
qed

lemma Map_get_new: "Map_get (Map_new es) k = map_of (rev es) k"
  by (simp add: Map_get_def Map_new_def map_of_foldl_update split: option.splits)

lemma keys_foldl_update:
  "fst ` set (foldl (\<lambda>m (k, v). Map_set m k v) m0 es) = fst ` set m0 \<union> fst ` set es"
proof (induction es arbitrary: m0)
  case Nil
  show ?case by simp
next
  case (Cons e es)
  obtain a b where e: "e = (a, b)" by (cases e)
  show ?case
    by (simp add: Cons.IH e keys_Map_set)
qed

lemma keys_Map_new: "fst ` set (Map_new es) = fst ` set es"
  by (simp add: Map_new_def keys_foldl_update)

lemma Map_has_iff: "Map_has m k \<longleftrightarrow> k \<in> fst ` set m"
  by (simp add: Map_has_def map_of_eq_None_iff)

lemma Map_has_new: "Map_has (Map_new es) k \<longleftrightarrow> k \<in> fst ` set es"
  by (simp add: Map_has_iff keys_Map_new)

lemma Map_new_empty_iff: "Map_new es = [] \<longleftrightarrow> es = []"
proof
  assume "Map_new es = []"
  then have "fst ` set (Map_new es) = {}" by simp
  then show "es = []" by (simp add: keys_Map_new)
qed (simp add: Map_new_def)

section \<open>Coordinate keys are injective\<close>

lemma digit_cases:
  "d < 10 \<Longrightarrow> d = 0 \<or> d = 1 \<or> d = 2 \<or> d = 3 \<or> d = 4 \<or> d = 5 \<or> d = 6 \<or> d = 7 \<or> d = 8 \<or> d = (9::nat)"
  by arith

lemma digit_val_digit_char: "d < 10 \<Longrightarrow> digit_val (digit_char d) = d"
  by (drule digit_cases) (auto simp: digit_char_def digit_val_def)

lemma digit_char_is_digit: "d < 10 \<Longrightarrow> digit_char d \<in> set ''0123456789''"
  by (drule digit_cases) (auto simp: digit_char_def)

lemma read_nat_snoc: "read_nat (str @ [ch]) = 10 * read_nat str + digit_val ch"
  by (simp add: read_nat_def)

lemma read_show_nat: "read_nat (show_nat n) = n"
proof (induction n rule: show_nat.induct)
  case (1 n)
  show ?case
  proof (cases "n < 10")
    case True
    then show ?thesis
      by (subst show_nat.simps) (simp add: read_nat_def digit_val_digit_char)
  next
    case False
    then have "read_nat (show_nat n) = 10 * read_nat (show_nat (n div 10)) + digit_val (digit_char (n mod 10))"
      by (subst show_nat.simps) (simp add: read_nat_snoc)
    also have "\<dots> = 10 * (n div 10) + n mod 10"
      using False by (simp add: "1.IH" digit_val_digit_char)
    finally show ?thesis by simp
  qed
qed

lemma show_nat_inj: "show_nat m = show_nat n \<Longrightarrow> m = n"
  by (metis read_show_nat)

lemma show_nat_digits: "set (show_nat n) \<subseteq> set ''0123456789''"
proof (induction n rule: show_nat.induct)
  case (1 n)
  show ?case
  proof (cases "n < 10")
    case True
    then show ?thesis
      using digit_char_is_digit[of n] by (subst show_nat.simps) simp
  next
    case False
    then show ?thesis
      using "1.IH" digit_char_is_digit[of "n mod 10"] by (subst show_nat.simps) simp
  qed
qed

lemma show_nat_nonempty: "show_nat n \<noteq> []"
  by (subst show_nat.simps) simp

lemma show_nat_no_minus: "CHR ''-'' \<notin> set (show_nat n)"
  using show_nat_digits[of n] by auto

lemma show_nat_no_colon: "CHR '':'' \<notin> set (show_nat n)"
  using show_nat_digits[of n] by auto

lemma show_int_inj: "show_int i = show_int j \<Longrightarrow> i = j"
proof -
  assume eq: "show_int i = show_int j"
  have hd_nat: "\<And>n. hd (show_nat n) \<noteq> CHR ''-''"
    using show_nat_no_minus show_nat_nonempty by (metis hd_in_set)
  show "i = j"
  proof (cases "i < 0")
    case True
    show ?thesis
    proof (cases "j < 0")
      case jneg: True
      with True eq have "show_nat (nat (- i)) = show_nat (nat (- j))"
        by (simp add: show_int_def)
      then have "nat (- i) = nat (- j)" by (rule show_nat_inj)
      with True jneg show ?thesis by simp
    next
      case False
      with True eq have "CHR ''-'' # show_nat (nat (- i)) = show_nat (nat j)"
        by (simp add: show_int_def)
      then have "hd (show_nat (nat j)) = CHR ''-''" by (metis list.sel(1))
      with hd_nat show ?thesis by simp
    qed
  next
    case False
    show ?thesis
    proof (cases "j < 0")
      case True
      with False eq have "show_nat (nat i) = CHR ''-'' # show_nat (nat (- j))"
        by (simp add: show_int_def)
      then have "hd (show_nat (nat i)) = CHR ''-''" by (metis list.sel(1))
      with hd_nat show ?thesis by simp
    next
      case jpos: False
      with False eq have "show_nat (nat i) = show_nat (nat j)"
        by (simp add: show_int_def)
      then have "nat i = nat j" by (rule show_nat_inj)
      with False jpos show ?thesis by simp
    qed
  qed
qed

lemma show_int_no_colon: "CHR '':'' \<notin> set (show_int i)"
  by (simp add: show_int_def show_nat_no_colon)

lemma split_at_separator:
  "a @ x # b = a' @ x # b' \<Longrightarrow> x \<notin> set a \<Longrightarrow> x \<notin> set a' \<Longrightarrow> a = a' \<and> b = b'"
proof (induction a arbitrary: a')
  case Nil
  then show ?case by (cases a') auto
next
  case (Cons y ys)
  then show ?case by (cases a') auto
qed

lemma coordKey_inj: "coordKey r c = coordKey r' c' \<Longrightarrow> r = r' \<and> c = c'"
proof -
  assume "coordKey r c = coordKey r' c'"
  then have "show_int r @ CHR '':'' # show_int c = show_int r' @ CHR '':'' # show_int c'"
    by (simp add: coordKey_def)
  then have "show_int r = show_int r' \<and> show_int c = show_int c'"
    by (rule split_at_separator) (rule show_int_no_colon)+
  then show ?thesis by (auto dest: show_int_inj)
qed

section \<open>The ray cast finds the first occupied cell\<close>

lemma step_cell_0: "step_cell d (r, c) 0 = (r, c)"
  by (simp add: step_cell_def)

lemma step_cell_Suc:
  "step_cell d (r, c) (Suc k) = step_cell d (r + fst (DIR_VECTORS d), c + snd (DIR_VECTORS d)) k"
  by (simp add: step_cell_def algebra_simps)

lemma cast_loop_spec:
  "\<exists>n. rayCells (cast_loop d index nrows ncols r c cells) = cells @ map (step_cell d (r, c)) [0..<n]
     \<and> dir (cast_loop d index nrows ncols r c cells) = d
     \<and> (\<forall>k<n. cell_inBounds (step_cell d (r, c) k) nrows ncols)
     \<and> (\<forall>k. Suc k < n \<longrightarrow> truthy_hit index (step_cell d (r, c) k) = None)
     \<and> (case toId (cast_loop d index nrows ncols r c cells) of
          Some h \<Rightarrow> 0 < n \<and> truthy_hit index (step_cell d (r, c) (n - 1)) = Some h
        | None \<Rightarrow> (\<forall>k<n. truthy_hit index (step_cell d (r, c) k) = None)
                  \<and> \<not> cell_inBounds (step_cell d (r, c) n) nrows ncols)"
proof (induction d index nrows ncols r c cells rule: cast_loop.induct)
  case (1 d index nrows ncols r c cells)
  let ?r' = "r + fst (DIR_VECTORS d)" and ?c' = "c + snd (DIR_VECTORS d)"
  show ?case
  proof (cases "inBounds r c nrows ncols")
    case False
    then have "cast_loop d index nrows ncols r c cells = \<lparr>dir = d, toId = None, rayCells = cells\<rparr>"
      by (subst cast_loop.simps) simp
    with False show ?thesis
      by (intro exI[of _ 0]) (simp add: step_cell_0 cell_inBounds_def)
  next
    case True
    show ?thesis
    proof (cases "truthy_hit index (r, c)")
      case (Some h)
      then have "cast_loop d index nrows ncols r c cells =
          \<lparr>dir = d, toId = Some h, rayCells = cells @ [(r, c)]\<rparr>"
        using True
        by (subst cast_loop.simps)
           (auto simp: truthy_hit_def occupant_def Let_def split: option.splits if_splits)
      with True Some show ?thesis
        by (intro exI[of _ 1]) (simp add: step_cell_0 cell_inBounds_def)
    next
      case None
      then have eq: "cast_loop d index nrows ncols r c cells =
          cast_loop d index nrows ncols ?r' ?c' (cells @ [(r, c)])"
        using True
        by (subst cast_loop.simps)
           (auto simp: truthy_hit_def occupant_def Let_def split: option.splits if_splits)
      have "\<exists>n. rayCells (cast_loop d index nrows ncols ?r' ?c' (cells @ [(r, c)]))
                = (cells @ [(r, c)]) @ map (step_cell d (?r', ?c')) [0..<n]
              \<and> dir (cast_loop d index nrows ncols ?r' ?c' (cells @ [(r, c)])) = d
              \<and> (\<forall>k<n. cell_inBounds (step_cell d (?r', ?c') k) nrows ncols)
              \<and> (\<forall>k. Suc k < n \<longrightarrow> truthy_hit index (step_cell d (?r', ?c') k) = None)
              \<and> (case toId (cast_loop d index nrows ncols ?r' ?c' (cells @ [(r, c)])) of
                   Some h \<Rightarrow> 0 < n \<and> truthy_hit index (step_cell d (?r', ?c') (n - 1)) = Some h
                 | None \<Rightarrow> (\<forall>k<n. truthy_hit index (step_cell d (?r', ?c') k) = None)
                           \<and> \<not> cell_inBounds (step_cell d (?r', ?c') n) nrows ncols)"
      proof (cases "Map_get index (coordKey r c)")
        case None
        show ?thesis by (rule "1.IH"(1)[OF True refl None])
      next
        case (Some hitId)
        with \<open>truthy_hit index (r, c) = None\<close> have "\<not> hitId \<noteq> []"
          by (auto simp: truthy_hit_def occupant_def split: if_splits)
        then show ?thesis by (rule "1.IH"(2)[OF True refl Some])
      qed
      then obtain n where n:
        "rayCells (cast_loop d index nrows ncols ?r' ?c' (cells @ [(r, c)]))
           = (cells @ [(r, c)]) @ map (step_cell d (?r', ?c')) [0..<n]"
        "dir (cast_loop d index nrows ncols ?r' ?c' (cells @ [(r, c)])) = d"
        "\<forall>k<n. cell_inBounds (step_cell d (?r', ?c') k) nrows ncols"
        "\<forall>k. Suc k < n \<longrightarrow> truthy_hit index (step_cell d (?r', ?c') k) = None"
        "case toId (cast_loop d index nrows ncols ?r' ?c' (cells @ [(r, c)])) of
           Some h \<Rightarrow> 0 < n \<and> truthy_hit index (step_cell d (?r', ?c') (n - 1)) = Some h
         | None \<Rightarrow> (\<forall>k<n. truthy_hit index (step_cell d (?r', ?c') k) = None)
                   \<and> \<not> cell_inBounds (step_cell d (?r', ?c') n) nrows ncols"
        by blast
      have shift: "map (step_cell d (r, c)) [0..<Suc n] = (r, c) # map (step_cell d (?r', ?c')) [0..<n]"
        by (simp add: upt_conv_Cons map_Suc_upt[symmetric] step_cell_0 step_cell_Suc del: upt_Suc)
      have a: "rayCells (cast_loop d index nrows ncols r c cells) = cells @ map (step_cell d (r, c)) [0..<Suc n]"
        unfolding eq n(1) shift by simp
      have b: "\<forall>k<Suc n. cell_inBounds (step_cell d (r, c) k) nrows ncols"
      proof (intro allI impI)
        fix k assume "k < Suc n"
        then show "cell_inBounds (step_cell d (r, c) k) nrows ncols"
          using True n(3) by (cases k) (simp_all add: step_cell_0 step_cell_Suc cell_inBounds_def)
      qed
      have c: "\<forall>k. Suc k < Suc n \<longrightarrow> truthy_hit index (step_cell d (r, c) k) = None"
      proof (intro allI impI)
        fix k assume "Suc k < Suc n"
        then show "truthy_hit index (step_cell d (r, c) k) = None"
          using None n(4) by (cases k) (simp_all add: step_cell_0 step_cell_Suc)
      qed
      have d: "case toId (cast_loop d index nrows ncols r c cells) of
           Some h \<Rightarrow> 0 < Suc n \<and> truthy_hit index (step_cell d (r, c) (Suc n - 1)) = Some h
         | None \<Rightarrow> (\<forall>k<Suc n. truthy_hit index (step_cell d (r, c) k) = None)
                   \<and> \<not> cell_inBounds (step_cell d (r, c) (Suc n)) nrows ncols"
      proof (cases "toId (cast_loop d index nrows ncols ?r' ?c' (cells @ [(r, c)]))")
        case (Some h)
        with n(5) have "0 < n" "truthy_hit index (step_cell d (?r', ?c') (n - 1)) = Some h" by simp_all
        then have "truthy_hit index (step_cell d (r, c) n) = Some h"
          by (cases n) (simp_all add: step_cell_Suc)
        with Some show ?thesis unfolding eq by simp
      next
        case None2: None
        with n(5) have h: "\<forall>k<n. truthy_hit index (step_cell d (?r', ?c') k) = None"
          "\<not> cell_inBounds (step_cell d (?r', ?c') n) nrows ncols" by simp_all
        have "\<forall>k<Suc n. truthy_hit index (step_cell d (r, c) k) = None"
        proof (intro allI impI)
          fix k assume "k < Suc n"
          then show "truthy_hit index (step_cell d (r, c) k) = None"
            using None h(1) by (cases k) (simp_all add: step_cell_0 step_cell_Suc)
        qed
        with None2 h(2) show ?thesis unfolding eq by (simp add: step_cell_Suc)
      qed
      show ?thesis
        using a b c d n(2) eq by (intro exI[of _ "Suc n"]) simp
    qed
  qed
qed

lemma truthy_hit_occupant:
  assumes "list_all (\<lambda>entry. snd entry \<noteq> []) index"
  shows "truthy_hit index cell = occupant index cell"
proof (cases "occupant index cell")
  case None
  then show ?thesis by (simp add: truthy_hit_def)
next
  case (Some h)
  then have "(coordKey (fst cell) (snd cell), h) \<in> set index"
    by (auto simp: occupant_def Map_get_def dest: map_of_SomeD)
  with assms have "h \<noteq> []"
    by (auto simp: list_all_iff)
  with Some show ?thesis by (simp add: truthy_hit_def)
qed

lemma step_cell_ray_cell:
  "step_cell d (row block + fst (DIR_VECTORS d), col block + snd (DIR_VECTORS d)) k
     = ray_cell block d (Suc k)"
  by (simp add: step_cell_def ray_cell_def algebra_simps)

text \<open>
  C3, as the claim states it, fails on an index that holds the empty string as an id:
  the first cell of the ray is in bounds and the index has an id for it, yet the cast
  reports no hit, because \<^verbatim>\<open>if (hitId)\<close> takes the empty string for a missing entry.
\<close>

theorem castNearest_empty_id_counterexample:
  "cell_inBounds (ray_cell origin_block E 1) 1 2 \<and>
   occupant empty_id_index (ray_cell origin_block E 1) = Some [] \<and>
   toId (castNearest origin_block E empty_id_index 1 2) = None"
  by code_simp

text \<open>
  C3 (amended). For every block, direction, grid size and coordinate index whose ids are
  all non-empty strings, the cast of \<^verbatim>\<open>castNearest\<close> carries the direction it was
  given, and there is a number \<open>n\<close> of traversed cells such that: \<^verbatim>\<open>rayCells\<close> lists
  exactly the first \<open>n\<close> cells of the ray, stepping cell by cell from the block along
  the vector of the direction; all of them are in bounds; none of the first \<open>n - 1\<close> is
  occupied; if \<^verbatim>\<open>toId\<close> is an id, the \<open>n\<close>-th cell is the last one listed and that
  id occupies it (the first occupied cell met); and if \<^verbatim>\<open>toId\<close> is null, no listed
  cell is occupied and the next cell of the ray is out of bounds. So \<^verbatim>\<open>toId\<close> is null
  exactly when the ray leaves the grid without meeting an occupied cell.
\<close>

theorem castNearest_first_occupied:
  assumes "list_all (\<lambda>entry. snd entry \<noteq> []) index"
  shows "\<exists>n. rayCells (castNearest block d index nrows ncols) = map (ray_cell block d) [1..<Suc n]
     \<and> dir (castNearest block d index nrows ncols) = d
     \<and> (\<forall>k. 1 \<le> k \<and> k \<le> n \<longrightarrow> cell_inBounds (ray_cell block d k) nrows ncols)
     \<and> (\<forall>k. 1 \<le> k \<and> k < n \<longrightarrow> occupant index (ray_cell block d k) = None)
     \<and> (case toId (castNearest block d index nrows ncols) of
          Some h \<Rightarrow> 1 \<le> n \<and> occupant index (ray_cell block d n) = Some h
        | None \<Rightarrow> (\<forall>k. 1 \<le> k \<and> k \<le> n \<longrightarrow> occupant index (ray_cell block d k) = None)
                  \<and> \<not> cell_inBounds (ray_cell block d (Suc n)) nrows ncols)"
proof -
  let ?r = "row block + fst (DIR_VECTORS d)" and ?c = "col block + snd (DIR_VECTORS d)"
  let ?res = "cast_loop d index nrows ncols ?r ?c []"
  note th = truthy_hit_occupant[OF assms]
  from cast_loop_spec[of d index nrows ncols ?r ?c "[]"] obtain n where n:
    "rayCells ?res = map (step_cell d (?r, ?c)) [0..<n]"
    "dir ?res = d"
    "\<forall>k<n. cell_inBounds (ray_cell block d (Suc k)) nrows ncols"
    "\<forall>k. Suc k < n \<longrightarrow> occupant index (ray_cell block d (Suc k)) = None"
    "case toId ?res of
       Some h \<Rightarrow> 0 < n \<and> occupant index (ray_cell block d (Suc (n - 1))) = Some h
     | None \<Rightarrow> (\<forall>k<n. occupant index (ray_cell block d (Suc k)) = None)
               \<and> \<not> cell_inBounds (ray_cell block d (Suc n)) nrows ncols"
    unfolding th step_cell_ray_cell by auto
  have cells: "rayCells ?res = map (ray_cell block d) [1..<Suc n]"
  proof -
    have "map (ray_cell block d) [1..<Suc n] = map (ray_cell block d) (map Suc [0..<n])"
      by (simp only: map_Suc_upt One_nat_def)
    also have "\<dots> = map (step_cell d (?r, ?c)) [0..<n]"
      by (simp add: step_cell_ray_cell)
    finally show ?thesis using n(1) by simp
  qed
  have inb: "\<forall>k. 1 \<le> k \<and> k \<le> n \<longrightarrow> cell_inBounds (ray_cell block d k) nrows ncols"
  proof (intro allI impI)
    fix k assume "1 \<le> k \<and> k \<le> n"
    then obtain j where "k = Suc j" "j < n" by (cases k) auto
    with n(3) show "cell_inBounds (ray_cell block d k) nrows ncols" by simp
  qed
  have free: "\<forall>k. 1 \<le> k \<and> k < n \<longrightarrow> occupant index (ray_cell block d k) = None"
  proof (intro allI impI)
    fix k assume "1 \<le> k \<and> k < n"
    then obtain j where "k = Suc j" "Suc j < n" by (cases k) auto
    with n(4) show "occupant index (ray_cell block d k) = None" by simp
  qed
  have last: "case toId ?res of
       Some h \<Rightarrow> 1 \<le> n \<and> occupant index (ray_cell block d n) = Some h
     | None \<Rightarrow> (\<forall>k. 1 \<le> k \<and> k \<le> n \<longrightarrow> occupant index (ray_cell block d k) = None)
               \<and> \<not> cell_inBounds (ray_cell block d (Suc n)) nrows ncols"
  proof (cases "toId ?res")
    case (Some h)
    with n(5) show ?thesis by auto
  next
    case None
    with n(5) have h: "\<forall>k<n. occupant index (ray_cell block d (Suc k)) = None"
      "\<not> cell_inBounds (ray_cell block d (Suc n)) nrows ncols" by simp_all
    have "\<forall>k. 1 \<le> k \<and> k \<le> n \<longrightarrow> occupant index (ray_cell block d k) = None"
    proof (intro allI impI)
      fix k assume "1 \<le> k \<and> k \<le> n"
      then obtain j where "k = Suc j" "j < n" by (cases k) auto
      with h(1) show "occupant index (ray_cell block d k) = None" by simp
    qed
    with None h(2) show ?thesis by simp
  qed
  show ?thesis
    unfolding castNearest_def
    using cells n(2) inb free last by (intro exI[of _ n]) simp
qed

theorem castNearest_first_occupied_witness:
  "list_all (\<lambda>entry. snd entry \<noteq> []) far_index \<and>
   (\<exists>n. rayCells (castNearest origin_block E far_index 1 3) = map (ray_cell origin_block E) [1..<Suc n]
     \<and> dir (castNearest origin_block E far_index 1 3) = E
     \<and> (\<forall>k. 1 \<le> k \<and> k \<le> n \<longrightarrow> cell_inBounds (ray_cell origin_block E k) 1 3)
     \<and> (\<forall>k. 1 \<le> k \<and> k < n \<longrightarrow> occupant far_index (ray_cell origin_block E k) = None)
     \<and> (case toId (castNearest origin_block E far_index 1 3) of
          Some h \<Rightarrow> 1 \<le> n \<and> occupant far_index (ray_cell origin_block E n) = Some h
        | None \<Rightarrow> (\<forall>k. 1 \<le> k \<and> k \<le> n \<longrightarrow> occupant far_index (ray_cell origin_block E k) = None)
                  \<and> \<not> cell_inBounds (ray_cell origin_block E (Suc n)) 1 3))"
proof -
  have h: "list_all (\<lambda>entry. snd entry \<noteq> []) far_index"
    by (simp add: far_index_def)
  show ?thesis
    using h castNearest_first_occupied[OF h, of origin_block E 1 3] by simp
qed

section \<open>The simulator leaves its argument alone\<close>






section \<open>Invalid start selections\<close>

lemma sim_loop_unknown_start:
  assumes "startId \<notin> blockId ` set layout"
  shows "sim_loop nrows ncols (sim_init layout startId) = sim_init layout startId"
proof -
  have "\<not> Map_has (aliveById (sim_init layout startId)) startId"
    using assms by (auto simp: sim_init_def Map_has_new image_iff)
  moreover have "frontier (sim_init layout startId) = [startId]"
    by (simp add: sim_init_def Set_new_def Set_add_def)
  ultimately show ?thesis
    by (subst sim_loop.simps) (simp add: Let_def)
qed

lemma simulateAttempt_unknown_start:
  assumes "startId \<notin> blockId ` set layout"
  shows "simulateAttempt layout startId nrows ncols = \<lparr>waves = [], success = (layout = [])\<rparr>"
  unfolding simulateAttempt_def sim_loop_unknown_start[OF assms]
  by (simp add: sim_init_def Map_size_def Map_new_empty_iff)

text \<open>
  C9. An invalid start selection is ignored without any change of state. For every
  layout and every start id that is the id of none of its blocks, \<^verbatim>\<open>simulateAttempt\<close>
  returns no wave at all, and reports success exactly when the layout has no blocks (so
  it reports failure on every non-empty layout). And \<^verbatim>\<open>playAttempt\<close> leaves the
  session as it is when the clicked id is not among the blocks currently alive, or when
  the simulation yields no wave.
\<close>

theorem invalid_start_ignored:
  "(startId \<notin> blockId ` set layout \<longrightarrow>
      waves (simulateAttempt layout startId nrows ncols) = [] \<and>
      (success (simulateAttempt layout startId nrows ncols) \<longleftrightarrow> layout = []) \<and>
      (layout \<noteq> [] \<longrightarrow> \<not> success (simulateAttempt layout startId nrows ncols)))
   \<and> ((\<not> list_ex (\<lambda>block. blockId block = startId) (blocks s)
        \<or> waves (simulateAttempt (blocks s) startId (rows (puzzle s)) (cols (puzzle s))) = [])
       \<longrightarrow> playAttempt s startId = s)"
  by (auto simp: simulateAttempt_unknown_start playAttempt_def Let_def)

theorem invalid_start_ignored_witness:
  "''zz'' \<notin> blockId ` set scenarioA \<and>
   waves (simulateAttempt scenarioA ''zz'' 2 2) = [] \<and>
   \<not> success (simulateAttempt scenarioA ''zz'' 2 2) \<and>
   \<not> list_ex (\<lambda>block. blockId block = ''zz'') (blocks idle_session) \<and>
   playAttempt idle_session ''zz'' = idle_session"
proof -
  have a: "''zz'' \<notin> blockId ` set scenarioA"
    by (simp add: scenarioA_def)
  have b: "\<not> list_ex (\<lambda>block. blockId block = ''zz'') (blocks idle_session)"
    by (simp add: idle_session_def scenarioA_def)
  have c: "scenarioA \<noteq> []"
    by (simp add: scenarioA_def)
  show ?thesis
    using a b c invalid_start_ignored[of "''zz''" scenarioA 2 2 idle_session] by simp
qed

section \<open>Every wave removes its sources before it casts\<close>

lemma Map_get_delete: "Map_get (Map_delete m k) k' = (if k' = k then None else Map_get m k')"
  by (simp add: Map_get_def Map_delete_def delete_conv')

lemma Map_has_delete: "Map_has (Map_delete m k) k' \<longleftrightarrow> k' \<noteq> k \<and> Map_has m k'"
  by (simp add: Map_has_def Map_delete_def delete_conv')

lemma Map_has_get: "Map_has m k \<longleftrightarrow> (\<exists>v. Map_get m k = Some v)"
  by (simp add: Map_has_def Map_get_def)

lemma sim_loop_step:
  assumes "Set_size (frontier s) > 0" and "filter (Map_has (aliveById s)) (frontier s) \<noteq> []"
  shows "sim_loop nrows ncols s =
           sim_loop nrows ncols (wave_step nrows ncols (filter (Map_has (aliveById s)) (frontier s)) s)"
  using assms by (subst sim_loop.simps) (simp add: Let_def)

lemma sim_loop_stop:
  assumes "\<not> (Set_size (frontier s) > 0 \<and> filter (Map_has (aliveById s)) (frontier s) \<noteq> [])"
  shows "sim_loop nrows ncols s = s"
  using assms by (subst sim_loop.simps) (auto simp: Let_def)

lemma cast_trace_step:
  assumes "Set_size (frontier s) > 0" and "filter (Map_has (aliveById s)) (frontier s) \<noteq> []"
  shows "cast_trace nrows ncols s =
           (filter (Map_has (aliveById s)) (frontier s),
            vanish (filter (Map_has (aliveById s)) (frontier s)) s)
           # cast_trace nrows ncols (wave_step nrows ncols (filter (Map_has (aliveById s)) (frontier s)) s)"
  using assms by (subst cast_trace.simps) (simp add: Let_def)

lemma cast_trace_stop:
  assumes "\<not> (Set_size (frontier s) > 0 \<and> filter (Map_has (aliveById s)) (frontier s) \<noteq> [])"
  shows "cast_trace nrows ncols s = []"
  using assms by (subst cast_trace.simps) (auto simp: Let_def)

lemma wavesAcc_wave_step:
  "wavesAcc (wave_step nrows ncols ids s) = wavesAcc s @ [wave_of nrows ncols (ids, vanish ids s)]"
proof -
  have "wavesAcc (vanish ids s) = wavesAcc s"
    unfolding vanish_def
    by (induction ids arbitrary: s) (simp_all add: vanish_one_def split: option.splits)
  then show ?thesis
    by (simp add: wave_step_def Let_def wave_of_def)
qed

lemma waves_are_trace:
  "wavesAcc (sim_loop nrows ncols s) = wavesAcc s @ map (wave_of nrows ncols) (cast_trace nrows ncols s)"
proof (induction nrows ncols s rule: sim_loop.induct)
  case (1 nrows ncols s)
  let ?ids = "filter (Map_has (aliveById s)) (frontier s)"
  show ?case
  proof (cases "Set_size (frontier s) > 0 \<and> ?ids \<noteq> []")
    case True
    then have ih: "wavesAcc (sim_loop nrows ncols (wave_step nrows ncols ?ids s))
        = wavesAcc (wave_step nrows ncols ?ids s)
          @ map (wave_of nrows ncols) (cast_trace nrows ncols (wave_step nrows ncols ?ids s))"
      by (intro "1.IH") auto
    show ?thesis
      using True ih
      by (simp add: sim_loop_step[of s] cast_trace_step[of s] wavesAcc_wave_step)
  next
    case False
    then show ?thesis
      by (simp add: sim_loop_stop cast_trace_stop)
  qed
qed

lemma unique_layout_same_id:
  "unique_layout layout \<Longrightarrow> b \<in> set layout \<Longrightarrow> b' \<in> set layout \<Longrightarrow> blockId b = blockId b' \<Longrightarrow> b = b'"
  by (auto simp: unique_layout_def distinct_map inj_on_def)

lemma unique_layout_same_key:
  assumes "unique_layout layout" "b \<in> set layout" "b' \<in> set layout"
    "coordKey (row b) (col b) = coordKey (row b') (col b')"
  shows "b = b'"
proof -
  from assms(4) have "(row b, col b) = (row b', col b')"
    by (auto dest: coordKey_inj)
  with assms(1-3) show ?thesis
    by (auto simp: unique_layout_def distinct_map inj_on_def)
qed

lemma distinct_keys:
  assumes "unique_layout layout"
  shows "distinct (map fst (map (\<lambda>block. (coordKey (row block) (col block), blockId block)) layout))"
proof -
  have "inj_on (\<lambda>block. coordKey (row block) (col block)) (set layout)"
    using unique_layout_same_key[OF assms] by (auto simp: inj_on_def)
  moreover have "distinct layout"
    using assms by (simp add: unique_layout_def distinct_map)
  ultimately show ?thesis
    by (simp add: distinct_map comp_def)
qed

lemma sim_init_inv:
  assumes "unique_layout layout"
  shows "sim_inv layout (sim_init layout startId)"
proof -
  let ?es = "map (\<lambda>block. (blockId block, block)) layout"
  let ?ks = "map (\<lambda>block. (coordKey (row block) (col block), blockId block)) layout"
  have a: "\<forall>i b. Map_get (Map_new ?es) i = Some b \<longrightarrow> b \<in> set layout \<and> blockId b = i"
    by (auto simp: Map_get_new dest!: map_of_SomeD)
  have d: "distinct (map fst (rev ?ks))"
    using distinct_keys[OF assms] by (simp add: rev_map[symmetric])
  have b: "\<forall>k i. Map_get (Map_new ?ks) k = Some i \<longleftrightarrow>
      (\<exists>b \<in> set layout. coordKey (row b) (col b) = k \<and> blockId b = i \<and> Map_has (Map_new ?es) i)"
    unfolding Map_get_new map_of_eq_Some_iff[OF d]
    by (auto simp: Map_has_new image_iff)
  show ?thesis
    using a b by (simp add: sim_inv_def sim_init_def)
qed

lemma vanish_one_inv:
  assumes u: "unique_layout layout" and inv: "sim_inv layout s"
  shows "sim_inv layout (vanish_one s i)"
proof (cases "Map_get (aliveById s) i")
  case None
  then show ?thesis using inv by (simp add: vanish_one_def)
next
  case (Some blk)
  from inv Some have blk: "blk \<in> set layout" "blockId blk = i"
    by (auto simp: sim_inv_def)
  let ?s' = "s\<lparr>aliveById := Map_delete (aliveById s) i,
                byCoord := Map_delete (byCoord s) (coordKey (row blk) (col blk))\<rparr>"
  have s': "vanish_one s i = ?s'" using Some by (simp add: vanish_one_def)
  have a: "\<forall>j b. Map_get (aliveById ?s') j = Some b \<longrightarrow> b \<in> set layout \<and> blockId b = j"
    using inv by (auto simp: sim_inv_def Map_get_delete split: if_splits)
  have b: "\<forall>k j. Map_get (byCoord ?s') k = Some j \<longleftrightarrow>
      (\<exists>b \<in> set layout. coordKey (row b) (col b) = k \<and> blockId b = j \<and> Map_has (aliveById ?s') j)"
  proof (intro allI iffI)
    fix k j
    assume "Map_get (byCoord ?s') k = Some j"
    then have k: "k \<noteq> coordKey (row blk) (col blk)" and g: "Map_get (byCoord s) k = Some j"
      by (auto simp: Map_get_delete split: if_splits)
    from g inv obtain b where b: "b \<in> set layout" "coordKey (row b) (col b) = k" "blockId b = j"
      "Map_has (aliveById s) j"
      by (auto simp: sim_inv_def)
    from k b(2) have "b \<noteq> blk" by auto
    with unique_layout_same_id[OF u b(1) blk(1)] b(3) blk(2) have "j \<noteq> i" by auto
    with b show "\<exists>b \<in> set layout. coordKey (row b) (col b) = k \<and> blockId b = j \<and> Map_has (aliveById ?s') j"
      by (auto simp: Map_has_delete)
  next
    fix k j
    assume "\<exists>b \<in> set layout. coordKey (row b) (col b) = k \<and> blockId b = j \<and> Map_has (aliveById ?s') j"
    then obtain b where b: "b \<in> set layout" "coordKey (row b) (col b) = k" "blockId b = j"
      "j \<noteq> i" "Map_has (aliveById s) j"
      by (auto simp: Map_has_delete)
    from b(3,4) blk(2) have "b \<noteq> blk" by auto
    with unique_layout_same_key[OF u b(1) blk(1)] b(2) have k: "k \<noteq> coordKey (row blk) (col blk)" by auto
    from inv b(1,2,3,5) have "Map_get (byCoord s) k = Some j"
      by (auto simp: sim_inv_def)
    with k show "Map_get (byCoord ?s') k = Some j"
      by (simp add: Map_get_delete)
  qed
  have c: "layoutById ?s' = Map_new (map (\<lambda>block. (blockId block, block)) layout)"
    using inv by (simp add: sim_inv_def)
  show ?thesis
    unfolding s' sim_inv_def using a b c by blast
qed

lemma vanish_inv:
  assumes "unique_layout layout" and "sim_inv layout s"
  shows "sim_inv layout (vanish ids s)"
  using assms(2) unfolding vanish_def
  by (induction ids arbitrary: s) (simp_all add: vanish_one_inv[OF assms(1)])

lemma wave_step_inv:
  assumes "unique_layout layout" and "sim_inv layout s"
  shows "sim_inv layout (wave_step nrows ncols ids s)"
  using vanish_inv[OF assms, of ids]
  by (simp add: wave_step_def Let_def sim_inv_def)

lemma vanish_one_alive:
  "Map_has (aliveById (vanish_one s i)) j \<longleftrightarrow> Map_has (aliveById s) j \<and> j \<noteq> i"
proof (cases "Map_get (aliveById s) i")
  case None
  then have "\<not> Map_has (aliveById s) i" by (simp add: Map_has_get)
  with None show ?thesis by (auto simp: vanish_one_def)
next
  case (Some blk)
  then show ?thesis by (auto simp: vanish_one_def Map_has_delete)
qed

lemma vanish_alive:
  "Map_has (aliveById (vanish ids s)) j \<longleftrightarrow> Map_has (aliveById s) j \<and> j \<notin> set ids"
  unfolding vanish_def
  by (induction ids arbitrary: s) (auto simp: vanish_one_alive)

lemma wave_step_alive:
  "Map_has (aliveById (wave_step nrows ncols ids s)) j \<longleftrightarrow> Map_has (aliveById s) j \<and> j \<notin> set ids"
  by (simp add: wave_step_def Let_def vanish_alive)

lemma index_follows_alive:
  assumes u: "unique_layout layout" and inv: "sim_inv layout s" and b: "b \<in> set layout"
  shows "Map_has (byCoord s) (coordKey (row b) (col b)) \<longleftrightarrow> Map_has (aliveById s) (blockId b)"
proof
  assume "Map_has (byCoord s) (coordKey (row b) (col b))"
  then obtain i where "Map_get (byCoord s) (coordKey (row b) (col b)) = Some i"
    by (auto simp: Map_has_get)
  with inv obtain b' where b': "b' \<in> set layout" "coordKey (row b') (col b') = coordKey (row b) (col b)"
    "blockId b' = i" "Map_has (aliveById s) i"
    by (auto simp: sim_inv_def)
  from unique_layout_same_key[OF u b'(1) b b'(2)] b'(3,4)
  show "Map_has (aliveById s) (blockId b)" by simp
next
  assume "Map_has (aliveById s) (blockId b)"
  with inv b have "Map_get (byCoord s) (coordKey (row b) (col b)) = Some (blockId b)"
    by (auto simp: sim_inv_def)
  then show "Map_has (byCoord s) (coordKey (row b) (col b))"
    by (auto simp: Map_has_get)
qed

lemma trace_props:
  assumes u: "unique_layout layout"
  shows "sim_inv layout s \<Longrightarrow> k < length (cast_trace nrows ncols s) \<Longrightarrow>
     sim_inv layout (snd (cast_trace nrows ncols s ! k))
     \<and> (\<forall>j. Map_has (aliveById (snd (cast_trace nrows ncols s ! k))) j \<longleftrightarrow>
              Map_has (aliveById s) j
              \<and> j \<notin> set (concat (map fst (take (Suc k) (cast_trace nrows ncols s)))))
     \<and> (\<forall>j \<in> set (concat (map fst (take (Suc k) (cast_trace nrows ncols s)))). Map_has (aliveById s) j)"
proof (induction nrows ncols s arbitrary: k rule: cast_trace.induct)
  case (1 nrows ncols s)
  let ?ids = "filter (Map_has (aliveById s)) (frontier s)"
  let ?s1 = "vanish ?ids s"
  let ?s' = "wave_step nrows ncols ?ids s"
  have go: "Set_size (frontier s) > 0 \<and> ?ids \<noteq> []"
  proof (rule ccontr)
    assume "\<not> (Set_size (frontier s) > 0 \<and> ?ids \<noteq> [])"
    then have "cast_trace nrows ncols s = []" by (rule cast_trace_stop)
    with "1.prems"(2) show False by simp
  qed
  then have tr: "cast_trace nrows ncols s = (?ids, ?s1) # cast_trace nrows ncols ?s'"
    by (simp add: cast_trace_step)
  have ids_alive: "\<forall>j \<in> set ?ids. Map_has (aliveById s) j" by simp
  show ?case
  proof (cases k)
    case 0
    have nth: "cast_trace nrows ncols s ! k = (?ids, ?s1)"
      unfolding 0 by (subst tr) simp
    have cc: "concat (map fst (take (Suc k) (cast_trace nrows ncols s))) = ?ids"
      unfolding 0 by (subst tr) simp
    have "sim_inv layout ?s1"
      using u "1.prems"(1) by (rule vanish_inv)
    moreover have "\<forall>j. Map_has (aliveById ?s1) j \<longleftrightarrow> Map_has (aliveById s) j \<and> j \<notin> set ?ids"
      by (simp only: vanish_alive) simp
    moreover note ids_alive
    ultimately have "sim_inv layout ?s1
       \<and> (\<forall>j. Map_has (aliveById ?s1) j \<longleftrightarrow> Map_has (aliveById s) j \<and> j \<notin> set ?ids)
       \<and> (\<forall>j \<in> set ?ids. Map_has (aliveById s) j)"
      by blast
    then show ?thesis
      unfolding nth cc snd_conv .
  next
    case (Suc k')
    let ?tr' = "cast_trace nrows ncols ?s'"
    let ?C' = "concat (map fst (take (Suc k') ?tr'))"
    from "1.prems"(2) have k': "k' < length ?tr'"
      unfolding Suc by (subst (asm) tr) simp
    have inv': "sim_inv layout ?s'"
      using u "1.prems"(1) by (rule wave_step_inv)
    have ih: "sim_inv layout (snd (?tr' ! k'))
       \<and> (\<forall>j. Map_has (aliveById (snd (?tr' ! k'))) j \<longleftrightarrow> Map_has (aliveById ?s') j \<and> j \<notin> set ?C')
       \<and> (\<forall>j \<in> set ?C'. Map_has (aliveById ?s') j)"
      using go by (intro "1.IH"[OF _ refl _ inv' k']) auto
    have nth: "cast_trace nrows ncols s ! k = ?tr' ! k'"
      unfolding Suc by (subst tr) simp
    have cc: "concat (map fst (take (Suc k) (cast_trace nrows ncols s))) = ?ids @ ?C'"
      unfolding Suc by (subst tr) simp
    have a: "sim_inv layout (snd (?tr' ! k'))"
      using ih by blast
    have b: "\<forall>j. Map_has (aliveById (snd (?tr' ! k'))) j \<longleftrightarrow>
                 Map_has (aliveById s) j \<and> j \<notin> set (?ids @ ?C')"
    proof
      fix j
      have "Map_has (aliveById (snd (?tr' ! k'))) j \<longleftrightarrow> Map_has (aliveById ?s') j \<and> j \<notin> set ?C'"
        using ih by blast
      also have "Map_has (aliveById ?s') j \<longleftrightarrow> Map_has (aliveById s) j \<and> j \<notin> set ?ids"
        by (rule wave_step_alive)
      finally show "Map_has (aliveById (snd (?tr' ! k'))) j \<longleftrightarrow>
                 Map_has (aliveById s) j \<and> j \<notin> set (?ids @ ?C')"
        by auto
    qed
    have c: "\<forall>j \<in> set (?ids @ ?C'). Map_has (aliveById s) j"
    proof
      fix j assume "j \<in> set (?ids @ ?C')"
      then consider "j \<in> set ?ids" | "j \<in> set ?C'" by auto
      then show "Map_has (aliveById s) j"
      proof cases
        case 1
        then show ?thesis by simp
      next
        case 2
        with ih have "Map_has (aliveById ?s') j" by blast
        then show ?thesis by (simp only: wave_step_alive)
      qed
    qed
    from a b c have "sim_inv layout (snd (?tr' ! k'))
       \<and> (\<forall>j. Map_has (aliveById (snd (?tr' ! k'))) j \<longleftrightarrow>
                 Map_has (aliveById s) j \<and> j \<notin> set (?ids @ ?C'))
       \<and> (\<forall>j \<in> set (?ids @ ?C'). Map_has (aliveById s) j)"
      by blast
    then show ?thesis
      unfolding nth cc .
  qed
qed

lemma cast_loop_hit_in_index:
  assumes "toId (cast_loop d index nrows ncols r c cells) = Some t"
  shows "\<exists>k. Map_get index k = Some t"
proof -
  from cast_loop_spec[of d index nrows ncols r c cells] obtain n where
    "case toId (cast_loop d index nrows ncols r c cells) of
       Some h \<Rightarrow> 0 < n \<and> truthy_hit index (step_cell d (r, c) (n - 1)) = Some h
     | None \<Rightarrow> (\<forall>k<n. truthy_hit index (step_cell d (r, c) k) = None)
               \<and> \<not> cell_inBounds (step_cell d (r, c) n) nrows ncols"
    by blast
  with assms have "truthy_hit index (step_cell d (r, c) (n - 1)) = Some t"
    by simp
  then have "occupant index (step_cell d (r, c) (n - 1)) = Some t"
    by (simp add: truthy_hit_def split: option.splits if_splits)
  then show ?thesis
    unfolding occupant_def by (rule exI)
qed

lemma cast_sources_hit_in_index:
  assumes src: "src \<in> set (cast_sources nrows ncols ids s)"
    and c: "c \<in> set (casts src)" and t: "toId c = Some t"
  shows "\<exists>k. Map_get (byCoord s) k = Some t"
proof -
  from src obtain i where
    "src \<in> set (case Map_get (layoutById s) i of
         None \<Rightarrow> []
       | Some block \<Rightarrow>
           [\<lparr>fromId = i,
             casts = map (\<lambda>d. castNearest block d (byCoord s) nrows ncols) (dirs block)\<rparr>])"
    unfolding cast_sources_def by auto
  then obtain blk where
    "src = \<lparr>fromId = i, casts = map (\<lambda>d. castNearest blk d (byCoord s) nrows ncols) (dirs blk)\<rparr>"
    by (cases "Map_get (layoutById s) i") simp_all
  with c obtain d where "c = castNearest blk d (byCoord s) nrows ncols"
    by auto
  with t show ?thesis
    unfolding castNearest_def by (auto dest: cast_loop_hit_in_index)
qed

lemma cast_sources_fromIds:
  assumes "\<forall>i \<in> set ids. Map_has (layoutById s) i"
  shows "map fromId (cast_sources nrows ncols ids s) = ids"
  using assms
proof (induction ids)
  case Nil
  show ?case by (simp add: cast_sources_def)
next
  case (Cons i ids)
  then obtain blk where "Map_get (layoutById s) i = Some blk"
    by (auto simp: Map_has_get)
  moreover have "map fromId (cast_sources nrows ncols ids s) = ids"
    using Cons by simp
  ultimately show ?case
    by (simp add: cast_sources_def)
qed

lemma nth_in_take_Suc: "k < length xs \<Longrightarrow> xs ! k \<in> set (take (Suc k) xs)"
  by (simp add: take_Suc_conv_app_nth)

text \<open>
  C2, as the claim states it, fails in two ways. In scenario A started at \<open>a\<close>, the
  second wave has the single source \<open>b\<close>, but when its rays are cast the ids whose
  cells are absent from the coordinate index are \<open>a\<close> and \<open>b\<close>: the index also
  lacks the sources of the earlier waves. And on a list of two blocks that carry
  the same id \<open>x\<close>, the wave of \<open>x\<close> removes only the cell of the second block from
  the index, so the cell of the first still holds \<open>x\<close> when the rays are cast, and the
  cast of the wave hits \<open>x\<close>, the id that vanishes in this very wave.
\<close>

theorem same_wave_counterexample:
  "fst (cast_trace 2 2 (sim_init scenarioA ''a'') ! 1) = [''b'']
   \<and> map fromId (sources (waves (simulateAttempt scenarioA ''a'' 2 2) ! 1)) = [''b'']
   \<and> absent_ids scenarioA (snd (cast_trace 2 2 (sim_init scenarioA ''a'') ! 1)) = [''a'', ''b'']
   \<and> fst (cast_trace 1 2 (sim_init twin_layout ''x'') ! 0) = [''x'']
   \<and> Map_get (byCoord (snd (cast_trace 1 2 (sim_init twin_layout ''x'') ! 0))) (coordKey 0 0)
       = Some ''x''
   \<and> sources (waves (simulateAttempt twin_layout ''x'' 1 2) ! 0)
       = [\<lparr>fromId = ''x'', casts = [\<lparr>dir = W, toId = Some ''x'', rayCells = [(0, 0)]\<rparr>]\<rparr>]"
  by code_simp

text \<open>
  C2 (amended). For every layout whose blocks have pairwise distinct ids and pairwise
  distinct cells, and every start id, in every wave that \<^verbatim>\<open>simulateAttempt\<close>
  produces: the rays of the wave are cast on the state left by the removal of all the
  sources of the wave (the waves of the result are the casts made on the states of the
  trace, and the sources of a wave are exactly the ids removed for it); in that state
  none of the sources is in the alive map and none of their cells is in the coordinate
  index; consequently no cast of the wave hits a block that vanishes in the same wave;
  and the ids whose cells are absent from the coordinate index when the rays are cast
  are exactly the sources vanished so far, those of this wave and of the waves before it.
\<close>

theorem sources_vanish_before_cast:
  assumes u: "unique_layout layout"
  shows
   "waves (simulateAttempt layout startId nrows ncols)
      = map (wave_of nrows ncols) (cast_trace nrows ncols (sim_init layout startId))
    \<and> (\<forall>k < length (cast_trace nrows ncols (sim_init layout startId)).
         case cast_trace nrows ncols (sim_init layout startId) ! k of (ids, s1) \<Rightarrow>
           map fromId (sources (waves (simulateAttempt layout startId nrows ncols) ! k)) = ids
         \<and> (\<forall>i \<in> set ids. \<not> Map_has (aliveById s1) i)
         \<and> (\<forall>b \<in> set layout. blockId b \<in> set ids \<longrightarrow>
               \<not> Map_has (byCoord s1) (coordKey (row b) (col b)))
         \<and> (\<forall>src \<in> set (sources (waves (simulateAttempt layout startId nrows ncols) ! k)).
               \<forall>c \<in> set (casts src). \<forall>t. toId c = Some t \<longrightarrow> t \<notin> set ids)
         \<and> {blockId b |b. b \<in> set layout \<and> \<not> Map_has (byCoord s1) (coordKey (row b) (col b))}
             = set (concat (map fst (take (Suc k) (cast_trace nrows ncols (sim_init layout startId))))))"
proof (intro conjI allI impI)
  define s0 where "s0 = sim_init layout startId"
  define tr where "tr = cast_trace nrows ncols s0"
  define res where "res = simulateAttempt layout startId nrows ncols"
  have "wavesAcc (sim_loop nrows ncols s0) = map (wave_of nrows ncols) tr"
    unfolding tr_def waves_are_trace by (simp add: s0_def sim_init_def)
  then have w: "waves res = map (wave_of nrows ncols) tr"
    by (simp add: res_def simulateAttempt_def Let_def s0_def)
  then show "waves (simulateAttempt layout startId nrows ncols)
      = map (wave_of nrows ncols) (cast_trace nrows ncols (sim_init layout startId))"
    unfolding res_def tr_def s0_def .
  fix k assume "k < length (cast_trace nrows ncols (sim_init layout startId))"
  then have k: "k < length tr" by (simp add: tr_def s0_def)
  obtain ids s1 where e: "tr ! k = (ids, s1)" by (cases "tr ! k")
  define C where "C = concat (map fst (take (Suc k) tr))"
  have alive0: "Map_has (aliveById s0) j \<longleftrightarrow> j \<in> blockId ` set layout" for j
    by (auto simp: s0_def sim_init_def Map_has_new image_iff)
  have inv0: "sim_inv layout s0"
    unfolding s0_def using u by (rule sim_init_inv)
  have tp: "sim_inv layout (snd (tr ! k))
     \<and> (\<forall>j. Map_has (aliveById (snd (tr ! k))) j \<longleftrightarrow> Map_has (aliveById s0) j \<and> j \<notin> set C)
     \<and> (\<forall>j \<in> set C. Map_has (aliveById s0) j)"
    unfolding C_def tr_def using u inv0 k[unfolded tr_def] by (rule trace_props)
  have inv1: "sim_inv layout s1"
    using tp unfolding e by simp
  have alive1: "Map_has (aliveById s1) j \<longleftrightarrow> j \<in> blockId ` set layout \<and> j \<notin> set C" for j
    using tp unfolding e alive0 by simp
  have C0: "j \<in> blockId ` set layout" if "j \<in> set C" for j
    using tp that unfolding alive0 by blast
  have "tr ! k \<in> set (take (Suc k) tr)"
    using k by (rule nth_in_take_Suc)
  then have "fst (tr ! k) \<in> set (map fst (take (Suc k) tr))"
    by simp
  then have idsC: "set ids \<subseteq> set C"
    unfolding e C_def by auto
  have wk: "sources (waves res ! k) = cast_sources nrows ncols ids s1"
    using k e by (simp add: w wave_of_def)
  have lay: "\<forall>i \<in> set ids. Map_has (layoutById s1) i"
  proof
    fix i assume "i \<in> set ids"
    with idsC have "i \<in> set C" by blast
    then have "i \<in> blockId ` set layout" by (rule C0)
    moreover have "layoutById s1 = Map_new (map (\<lambda>block. (blockId block, block)) layout)"
      using inv1 by (simp add: sim_inv_def)
    ultimately show "Map_has (layoutById s1) i"
      by (auto simp: Map_has_new image_iff)
  qed
  have p1: "map fromId (sources (waves res ! k)) = ids"
    unfolding wk using lay by (rule cast_sources_fromIds)
  have p2: "\<forall>i \<in> set ids. \<not> Map_has (aliveById s1) i"
    using idsC alive1 by blast
  have sync: "Map_has (byCoord s1) (coordKey (row b) (col b)) \<longleftrightarrow> Map_has (aliveById s1) (blockId b)"
    if "b \<in> set layout" for b
    using u inv1 that by (rule index_follows_alive)
  have p3: "\<forall>b \<in> set layout. blockId b \<in> set ids \<longrightarrow>
               \<not> Map_has (byCoord s1) (coordKey (row b) (col b))"
    using p2 sync by blast
  have p4: "\<forall>src \<in> set (sources (waves res ! k)). \<forall>c \<in> set (casts src). \<forall>t. toId c = Some t \<longrightarrow> t \<notin> set ids"
  proof (intro ballI allI impI)
    fix src c t
    assume "src \<in> set (sources (waves res ! k))" "c \<in> set (casts src)" "toId c = Some t"
    then have "\<exists>key. Map_get (byCoord s1) key = Some t"
      unfolding wk by (rule cast_sources_hit_in_index)
    then obtain key where "Map_get (byCoord s1) key = Some t" ..
    with inv1 have "Map_has (aliveById s1) t"
      unfolding sim_inv_def by blast
    with p2 show "t \<notin> set ids" by blast
  qed
  have p5: "{blockId b |b. b \<in> set layout \<and> \<not> Map_has (byCoord s1) (coordKey (row b) (col b))} = set C"
  proof -
    have "{blockId b |b. b \<in> set layout \<and> \<not> Map_has (byCoord s1) (coordKey (row b) (col b))}
        = {blockId b |b. b \<in> set layout \<and> \<not> Map_has (aliveById s1) (blockId b)}"
      using sync by blast
    also have "\<dots> = {blockId b |b. b \<in> set layout \<and> blockId b \<in> set C}"
      unfolding alive1 by blast
    also have "\<dots> = set C"
      using C0 by blast
    finally show ?thesis .
  qed
  have "case tr ! k of (ids, s1) \<Rightarrow>
           map fromId (sources (waves res ! k)) = ids
         \<and> (\<forall>i \<in> set ids. \<not> Map_has (aliveById s1) i)
         \<and> (\<forall>b \<in> set layout. blockId b \<in> set ids \<longrightarrow>
               \<not> Map_has (byCoord s1) (coordKey (row b) (col b)))
         \<and> (\<forall>src \<in> set (sources (waves res ! k)).
               \<forall>c \<in> set (casts src). \<forall>t. toId c = Some t \<longrightarrow> t \<notin> set ids)
         \<and> {blockId b |b. b \<in> set layout \<and> \<not> Map_has (byCoord s1) (coordKey (row b) (col b))}
             = set C"
    unfolding e using p1 p2 p3 p4 p5 by simp
  then show "case cast_trace nrows ncols (sim_init layout startId) ! k of (ids, s1) \<Rightarrow>
           map fromId (sources (waves (simulateAttempt layout startId nrows ncols) ! k)) = ids
         \<and> (\<forall>i \<in> set ids. \<not> Map_has (aliveById s1) i)
         \<and> (\<forall>b \<in> set layout. blockId b \<in> set ids \<longrightarrow>
               \<not> Map_has (byCoord s1) (coordKey (row b) (col b)))
         \<and> (\<forall>src \<in> set (sources (waves (simulateAttempt layout startId nrows ncols) ! k)).
               \<forall>c \<in> set (casts src). \<forall>t. toId c = Some t \<longrightarrow> t \<notin> set ids)
         \<and> {blockId b |b. b \<in> set layout \<and> \<not> Map_has (byCoord s1) (coordKey (row b) (col b))}
             = set (concat (map fst (take (Suc k) (cast_trace nrows ncols (sim_init layout startId)))))"
    unfolding C_def tr_def res_def s0_def .
qed

lemma scenarioA_unique: "unique_layout scenarioA"
  by (simp add: unique_layout_def scenarioA_def)

lemma scenarioA_trace_length: "1 < length (cast_trace 2 2 (sim_init scenarioA ''a''))"
  by code_simp

theorem sources_vanish_before_cast_witness:
  "unique_layout scenarioA
   \<and> 1 < length (cast_trace 2 2 (sim_init scenarioA ''a''))
   \<and> (case cast_trace 2 2 (sim_init scenarioA ''a'') ! 1 of (ids, s1) \<Rightarrow>
           map fromId (sources (waves (simulateAttempt scenarioA ''a'' 2 2) ! 1)) = ids
         \<and> (\<forall>i \<in> set ids. \<not> Map_has (aliveById s1) i)
         \<and> (\<forall>b \<in> set scenarioA. blockId b \<in> set ids \<longrightarrow>
               \<not> Map_has (byCoord s1) (coordKey (row b) (col b)))
         \<and> (\<forall>src \<in> set (sources (waves (simulateAttempt scenarioA ''a'' 2 2) ! 1)).
               \<forall>c \<in> set (casts src). \<forall>t. toId c = Some t \<longrightarrow> t \<notin> set ids)
         \<and> {blockId b |b. b \<in> set scenarioA \<and> \<not> Map_has (byCoord s1) (coordKey (row b) (col b))}
             = set (concat (map fst (take (Suc 1) (cast_trace 2 2 (sim_init scenarioA ''a''))))))"
proof (intro conjI)
  show "unique_layout scenarioA" by (rule scenarioA_unique)
  show "1 < length (cast_trace 2 2 (sim_init scenarioA ''a''))" by (rule scenarioA_trace_length)
  from sources_vanish_before_cast[OF scenarioA_unique, of "''a''" 2 2, THEN conjunct2,
      rule_format, OF scenarioA_trace_length]
  show "case cast_trace 2 2 (sim_init scenarioA ''a'') ! 1 of (ids, s1) \<Rightarrow>
           map fromId (sources (waves (simulateAttempt scenarioA ''a'' 2 2) ! 1)) = ids
         \<and> (\<forall>i \<in> set ids. \<not> Map_has (aliveById s1) i)
         \<and> (\<forall>b \<in> set scenarioA. blockId b \<in> set ids \<longrightarrow>
               \<not> Map_has (byCoord s1) (coordKey (row b) (col b)))
         \<and> (\<forall>src \<in> set (sources (waves (simulateAttempt scenarioA ''a'' 2 2) ! 1)).
               \<forall>c \<in> set (casts src). \<forall>t. toId c = Some t \<longrightarrow> t \<notin> set ids)
         \<and> {blockId b |b. b \<in> set scenarioA \<and> \<not> Map_has (byCoord s1) (coordKey (row b) (col b))}
             = set (concat (map fst (take (Suc 1) (cast_trace 2 2 (sim_init scenarioA ''a'')))))" .
qed

section \<open>Determinism\<close>

text \<open>
  Every relation of the simulator holds for exactly the result of the function that
  models the same statements.
\<close>

lemma ray_loop_rel_fun:
  "ray_loop_rel d index nrows ncols r c cells cast \<Longrightarrow> cast = cast_loop d index nrows ncols r c cells"
proof (induction rule: ray_loop_rel.induct)
  case (ray_leaves r c cells)
  then show ?case by (subst cast_loop.simps) simp
next
  case (ray_hits r c hitId cells)
  then show ?case by (subst cast_loop.simps) simp
next
  case (ray_passes_free r c cells cast)
  then show ?case by (subst cast_loop.simps) simp
next
  case (ray_passes_falsy r c cells cast)
  then show ?case by (subst cast_loop.simps) simp
qed

lemma ray_loop_rel_total:
  "ray_loop_rel d index nrows ncols r c cells (cast_loop d index nrows ncols r c cells)"
proof (induction d index nrows ncols r c cells rule: cast_loop.induct)
  case (1 d index nrows ncols r c cells)
  show ?case
  proof (cases "inBounds r c nrows ncols")
    case False
    then show ?thesis
      by (subst cast_loop.simps) (simp add: ray_leaves)
  next
    case True
    show ?thesis
    proof (cases "Map_get index (coordKey r c)")
      case None
      from "1.IH"(1)[OF True refl None] True None show ?thesis
        by (subst cast_loop.simps) (simp add: ray_passes_free)
    next
      case (Some hitId)
      show ?thesis
      proof (cases "hitId = []")
        case e: True
        from "1.IH"(2)[OF True refl Some] e True Some show ?thesis
          by (subst cast_loop.simps) (simp add: ray_passes_falsy)
      next
        case False
        with True Some show ?thesis
          by (subst cast_loop.simps) (simp add: ray_hits)
      qed
    qed
  qed
qed

lemma ray_loop_rel_iff:
  "ray_loop_rel d index nrows ncols r c cells cast \<longleftrightarrow> cast = cast_loop d index nrows ncols r c cells"
  using ray_loop_rel_fun ray_loop_rel_total by blast

lemma castNearest_rel_iff:
  "castNearest_rel block d index nrows ncols cast \<longleftrightarrow> cast = castNearest block d index nrows ncols"
  by (simp add: castNearest_rel.simps ray_loop_rel_iff castNearest_def)

lemma vanish_rel_fun: "vanish_rel ids s s' \<Longrightarrow> s' = vanish ids s"
  by (induction rule: vanish_rel.induct) (simp_all add: vanish_def vanish_one_def)

lemma vanish_rel_total: "vanish_rel ids s (vanish ids s)"
proof (induction ids arbitrary: s)
  case Nil
  show ?case by (simp add: vanish_def vanish_done)
next
  case (Cons i ids)
  show ?case
  proof (cases "Map_get (aliveById s) i")
    case None
    with Cons[of s] show ?thesis
      by (auto simp: vanish_def vanish_one_def intro: vanish_absent)
  next
    case (Some block)
    with Cons[of "s\<lparr>aliveById := Map_delete (aliveById s) i,
          byCoord := Map_delete (byCoord s) (coordKey (row block) (col block))\<rparr>"]
    show ?thesis
      by (auto simp: vanish_def vanish_one_def intro: vanish_block)
  qed
qed

lemma vanish_rel_iff: "vanish_rel ids s s' \<longleftrightarrow> s' = vanish ids s"
  using vanish_rel_fun vanish_rel_total by blast

lemma casts_rel_iff:
  "casts_rel block index nrows ncols ds cs
     \<longleftrightarrow> cs = map (\<lambda>d. castNearest block d index nrows ncols) ds"
proof
  show "casts_rel block index nrows ncols ds cs \<Longrightarrow> cs = map (\<lambda>d. castNearest block d index nrows ncols) ds"
    by (induction rule: casts_rel.induct) (simp_all add: castNearest_rel_iff)
  have "casts_rel block index nrows ncols ds (map (\<lambda>d. castNearest block d index nrows ncols) ds)"
    by (induction ds) (simp_all add: casts_done casts_next castNearest_rel_iff)
  then show "cs = map (\<lambda>d. castNearest block d index nrows ncols) ds \<Longrightarrow> casts_rel block index nrows ncols ds cs"
    by simp
qed

lemma cast_sources_rel_iff:
  "cast_sources_rel nrows ncols ids s srcs \<longleftrightarrow> srcs = cast_sources nrows ncols ids s"
proof
  show "cast_sources_rel nrows ncols ids s srcs \<Longrightarrow> srcs = cast_sources nrows ncols ids s"
    by (induction rule: cast_sources_rel.induct) (simp_all add: cast_sources_def casts_rel_iff)
  have "cast_sources_rel nrows ncols ids s (cast_sources nrows ncols ids s)"
  proof (induction ids)
    case Nil
    show ?case by (simp add: cast_sources_def sources_done)
  next
    case (Cons i ids)
    show ?case
    proof (cases "Map_get (layoutById s) i")
      case None
      with Cons show ?thesis
        by (auto simp: cast_sources_def intro: sources_unknown)
    next
      case (Some block)
      with Cons show ?thesis
        by (auto simp: cast_sources_def casts_rel_iff intro!: sources_block)
    qed
  qed
  then show "srcs = cast_sources nrows ncols ids s \<Longrightarrow> cast_sources_rel nrows ncols ids s srcs"
    by simp
qed

lemma add_hits_rel_iff:
  "add_hits_rel s cs nf nf' \<longleftrightarrow> nf' = foldl (add_hit s) nf cs"
proof
  show "add_hits_rel s cs nf nf' \<Longrightarrow> nf' = foldl (add_hit s) nf cs"
    by (induction rule: add_hits_rel.induct) (simp_all add: add_hit_def)
  have "add_hits_rel s cs nf (foldl (add_hit s) nf cs)"
  proof (induction cs arbitrary: nf)
    case Nil
    show ?case by (simp add: hits_done)
  next
    case (Cons cast cs)
    show ?case
    proof (cases "toId cast")
      case None
      with Cons[of nf] show ?thesis
        by (auto simp: add_hit_def intro: hit_null)
    next
      case (Some t)
      show ?thesis
      proof (cases "t \<noteq> [] \<and> Map_has (aliveById s) t")
        case True
        with Some Cons[of "Set_add nf t"] show ?thesis
          by (auto simp: add_hit_def intro: hit_added)
      next
        case False
        with Some Cons[of nf] show ?thesis
          by (cases "t = []") (auto simp: add_hit_def intro: hit_falsy hit_gone)
      qed
    qed
  qed
  then show "nf' = foldl (add_hit s) nf cs \<Longrightarrow> add_hits_rel s cs nf nf'"
    by simp
qed

lemma next_frontier_rel_iff:
  "next_frontier_rel s srcs nf nf'
     \<longleftrightarrow> nf' = foldl (\<lambda>nf source. foldl (add_hit s) nf (casts source)) nf srcs"
proof
  show "next_frontier_rel s srcs nf nf' \<Longrightarrow>
        nf' = foldl (\<lambda>nf source. foldl (add_hit s) nf (casts source)) nf srcs"
    by (induction rule: next_frontier_rel.induct) (simp_all add: add_hits_rel_iff)
  have "next_frontier_rel s srcs nf (foldl (\<lambda>nf source. foldl (add_hit s) nf (casts source)) nf srcs)"
  proof (induction srcs arbitrary: nf)
    case Nil
    show ?case by (simp add: frontier_done)
  next
    case (Cons source srcs)
    show ?case
      using Cons[of "foldl (add_hit s) nf (casts source)"]
      by (auto simp: add_hits_rel_iff intro: frontier_source)
  qed
  then show "nf' = foldl (\<lambda>nf source. foldl (add_hit s) nf (casts source)) nf srcs \<Longrightarrow>
        next_frontier_rel s srcs nf nf'"
    by simp
qed

lemma wave_rel_iff:
  "vanish_rel ids s s1 \<and> cast_sources_rel nrows ncols ids s1 srcs \<and> next_frontier_rel s1 srcs [] nf
   \<Longrightarrow> s1\<lparr>wavesAcc := wavesAcc s1 @ [\<lparr>sources = srcs\<rparr>], frontier := nf\<rparr> = wave_step nrows ncols ids s"
  by (simp add: vanish_rel_iff cast_sources_rel_iff next_frontier_rel_iff wave_step_def Let_def
        next_frontier_def)

lemma wave_loop_rel_fun: "wave_loop_rel nrows ncols s s' \<Longrightarrow> s' = sim_loop nrows ncols s"
proof (induction rule: wave_loop_rel.induct)
  case (loop_exit s)
  then show ?case by (simp add: sim_loop_stop)
next
  case (loop_break s)
  then show ?case by (simp add: sim_loop_stop)
next
  case (loop_wave s currentWaveIds s1 srcs nextFrontier s')
  from loop_wave(4,5,6) have
    "s1\<lparr>wavesAcc := wavesAcc s1 @ [\<lparr>sources = srcs\<rparr>], frontier := nextFrontier\<rparr>
       = wave_step nrows ncols currentWaveIds s"
    by (intro wave_rel_iff) simp
  with loop_wave show ?case
    by (simp add: sim_loop_step)
qed

lemma wave_loop_rel_total: "wave_loop_rel nrows ncols s (sim_loop nrows ncols s)"
proof (induction nrows ncols s rule: sim_loop.induct)
  case (1 nrows ncols s)
  let ?ids = "filter (Map_has (aliveById s)) (frontier s)"
  show ?case
  proof (cases "Set_size (frontier s) > 0")
    case False
    then have "sim_loop nrows ncols s = s" by (intro sim_loop_stop) simp
    with False show ?thesis by (simp add: loop_exit)
  next
    case True
    show ?thesis
    proof (cases "length ?ids = 0")
      case z: True
      then have "sim_loop nrows ncols s = s" by (intro sim_loop_stop) simp
      with True z show ?thesis by (simp add: loop_break)
    next
      case False
      let ?s1 = "vanish ?ids s"
      let ?srcs = "cast_sources nrows ncols ?ids ?s1"
      let ?nf = "next_frontier ?srcs ?s1"
      have w: "?s1\<lparr>wavesAcc := wavesAcc ?s1 @ [\<lparr>sources = ?srcs\<rparr>], frontier := ?nf\<rparr>
                 = wave_step nrows ncols ?ids s"
        by (simp add: wave_step_def Let_def)
      have step: "sim_loop nrows ncols s = sim_loop nrows ncols (wave_step nrows ncols ?ids s)"
        using True False by (intro sim_loop_step) simp_all
      have ih: "wave_loop_rel nrows ncols (wave_step nrows ncols ?ids s)
              (sim_loop nrows ncols (wave_step nrows ncols ?ids s))"
        using "1.IH"[OF True refl False] .
      have r: "wave_loop_rel nrows ncols
                   (?s1\<lparr>wavesAcc := wavesAcc ?s1 @ [\<lparr>sources = ?srcs\<rparr>], frontier := ?nf\<rparr>)
                   (sim_loop nrows ncols s)"
        unfolding w step using ih .
      have v: "vanish_rel ?ids s ?s1"
        by (simp only: vanish_rel_iff)
      have c: "cast_sources_rel nrows ncols ?ids ?s1 ?srcs"
        by (simp only: cast_sources_rel_iff)
      have n: "next_frontier_rel ?s1 ?srcs [] ?nf"
        by (simp only: next_frontier_rel_iff next_frontier_def)
      show ?thesis
        using True refl False v c n r by (rule loop_wave)
    qed
  qed
qed

lemma simulateAttempt_rel_iff:
  "simulateAttempt_rel layout startId nrows ncols res \<longleftrightarrow> res = simulateAttempt layout startId nrows ncols"
proof
  assume "simulateAttempt_rel layout startId nrows ncols res"
  then show "res = simulateAttempt layout startId nrows ncols"
    by (auto simp: simulateAttempt_rel.simps simulateAttempt_def Let_def dest!: wave_loop_rel_fun)
next
  assume "res = simulateAttempt layout startId nrows ncols"
  then show "simulateAttempt_rel layout startId nrows ncols res"
    using wave_loop_rel_total[of nrows ncols "sim_init layout startId"]
    by (auto simp: simulateAttempt_def Let_def intro: simulateAttempt_rel.intros)
qed

lemma castNearest_rel_unique:
  "castNearest_rel block d index nrows ncols cast1 \<Longrightarrow>
   castNearest_rel block d index nrows ncols cast2 \<Longrightarrow> cast1 = cast2"
  by (simp add: castNearest_rel_iff)

lemma wave_loop_rel_unique:
  "wave_loop_rel nrows ncols s s1 \<Longrightarrow> wave_loop_rel nrows ncols s s2 \<Longrightarrow> s1 = s2"
  by (auto dest: wave_loop_rel_fun)

lemma scenarioA_from_c_run: "simulateAttempt_rel scenarioA ''c'' 2 2 scenarioA_from_c"
proof -
  have "scenarioA_from_c = simulateAttempt scenarioA ''c'' 2 2" by code_simp
  then show ?thesis by (simp only: simulateAttempt_rel_iff)
qed

lemma far_cast_run:
  "castNearest_rel origin_block E far_index 1 3 \<lparr>dir = E, toId = Some ''x'', rayCells = [(0, 1), (0, 2)]\<rparr>"
proof -
  have "\<lparr>dir = E, toId = Some ''x'', rayCells = [(0, 1), (0, 2)]\<rparr> = castNearest origin_block E far_index 1 3"
    by code_simp
  then show ?thesis by (simp only: castNearest_rel_iff)
qed

text \<open>
  C5. \<^verbatim>\<open>simulateAttempt\<close> is deterministic. Every call returns a result, and any two
  calls with identical inputs (the same block list, start id, rows and columns) return
  structurally identical results: the same list of waves (the same sources, their ids,
  casts, directions, hit ids and ray cells, in the same order) and the same success
  flag. The same holds for every single ray cast. The one result the rules allow is the
  value of the function \<open>simulateAttempt\<close>.
\<close>

theorem simulateAttempt_deterministic:
  "(\<exists>res. simulateAttempt_rel layout startId nrows ncols res)
   \<and> (simulateAttempt_rel layout1 start1 nrows1 ncols1 res1
        \<and> simulateAttempt_rel layout2 start2 nrows2 ncols2 res2
        \<and> layout1 = layout2 \<and> start1 = start2 \<and> nrows1 = nrows2 \<and> ncols1 = ncols2
      \<longrightarrow> res1 = res2 \<and> waves res1 = waves res2 \<and> success res1 = success res2)
   \<and> (castNearest_rel block d index nrows ncols cast1 \<and> castNearest_rel block d index nrows ncols cast2
      \<longrightarrow> cast1 = cast2)
   \<and> (simulateAttempt_rel layout startId nrows ncols res
        \<longleftrightarrow> res = simulateAttempt layout startId nrows ncols)"
proof (intro conjI impI)
  show "\<exists>res. simulateAttempt_rel layout startId nrows ncols res"
    using simulateAttempt_rel_iff by blast
next
  assume a: "simulateAttempt_rel layout1 start1 nrows1 ncols1 res1
        \<and> simulateAttempt_rel layout2 start2 nrows2 ncols2 res2
        \<and> layout1 = layout2 \<and> start1 = start2 \<and> nrows1 = nrows2 \<and> ncols1 = ncols2"
  then obtain s1 s2 where
    s1: "wave_loop_rel nrows1 ncols1 (sim_init layout1 start1) s1"
      "res1 = \<lparr>waves = wavesAcc s1, success = (Map_size (aliveById s1) = 0)\<rparr>" and
    s2: "wave_loop_rel nrows1 ncols1 (sim_init layout1 start1) s2"
      "res2 = \<lparr>waves = wavesAcc s2, success = (Map_size (aliveById s2) = 0)\<rparr>"
    by (auto simp: simulateAttempt_rel.simps)
  from s1(1) s2(1) have "s1 = s2" by (rule wave_loop_rel_unique)
  with s1(2) s2(2) show "res1 = res2" by simp
  then show "waves res1 = waves res2" "success res1 = success res2" by simp_all
next
  assume "castNearest_rel block d index nrows ncols cast1 \<and> castNearest_rel block d index nrows ncols cast2"
  then show "cast1 = cast2" using castNearest_rel_unique by blast
next
  show "simulateAttempt_rel layout startId nrows ncols res
        \<longleftrightarrow> res = simulateAttempt layout startId nrows ncols"
    by (rule simulateAttempt_rel_iff)
qed

theorem simulateAttempt_deterministic_witness:
  "simulateAttempt_rel scenarioA ''c'' 2 2 scenarioA_from_c
   \<and> simulateAttempt_rel scenarioA ''c'' 2 2 (simulateAttempt scenarioA ''c'' 2 2)
   \<and> scenarioA_from_c = simulateAttempt scenarioA ''c'' 2 2
   \<and> castNearest_rel origin_block E far_index 1 3
        \<lparr>dir = E, toId = Some ''x'', rayCells = [(0, 1), (0, 2)]\<rparr>
   \<and> castNearest_rel origin_block E far_index 1 3 (castNearest origin_block E far_index 1 3)
   \<and> \<lparr>dir = E, toId = Some ''x'', rayCells = [(0, 1), (0, 2)]\<rparr> = castNearest origin_block E far_index 1 3"
proof -
  note t = simulateAttempt_deterministic[where ?layout1.0 = scenarioA and ?layout2.0 = scenarioA
      and ?start1.0 = "''c''" and ?start2.0 = "''c''" and ?nrows1.0 = 2 and ?nrows2.0 = 2
      and ?ncols1.0 = 2 and ?ncols2.0 = 2 and ?res1.0 = scenarioA_from_c
      and ?res2.0 = "simulateAttempt scenarioA ''c'' 2 2"
      and layout = scenarioA and startId = "''c''" and nrows = 1 and ncols = 3
      and res = "simulateAttempt scenarioA ''c'' 1 3"
      and block = origin_block and d = E and index = far_index
      and ?cast1.0 = "\<lparr>dir = E, toId = Some ''x'', rayCells = [(0, 1), (0, 2)]\<rparr>"
      and ?cast2.0 = "castNearest origin_block E far_index 1 3"]
  have a: "simulateAttempt_rel scenarioA ''c'' 2 2 (simulateAttempt scenarioA ''c'' 2 2)"
    by (simp only: simulateAttempt_rel_iff)
  have b: "castNearest_rel origin_block E far_index 1 3 (castNearest origin_block E far_index 1 3)"
    by (simp only: castNearest_rel_iff)
  from t scenarioA_from_c_run far_cast_run a b show ?thesis by blast
qed

section \<open>Random choices stay in range\<close>

lemma randomInt_range:
  assumes "rng_ok rng" and "lo \<le> hi"
  shows "lo \<le> fst (randomInt rng n lo hi) \<and> fst (randomInt rng n lo hi) \<le> hi"
    and "snd (randomInt rng n lo hi) = Suc n"
proof -
  let ?m = "of_int (hi - lo + 1) :: rat"
  from assms(1) have x: "0 \<le> rng n" "rng n < 1" by (auto simp: rng_ok_def)
  from assms(2) have m: "0 < ?m" by simp
  have "0 \<le> rng n * ?m" using x(1) m by simp
  then have lower: "0 \<le> \<lfloor>rng n * ?m\<rfloor>" by simp
  have "rng n * ?m < ?m" using x(2) m by simp
  then have "\<lfloor>rng n * ?m\<rfloor> < hi - lo + 1"
    by (simp only: floor_less_iff)
  with lower show "lo \<le> fst (randomInt rng n lo hi) \<and> fst (randomInt rng n lo hi) \<le> hi"
    by (simp add: randomInt_def)
  show "snd (randomInt rng n lo hi) = Suc n"
    by (simp add: randomInt_def)
qed

lemma chooseRandom_counts: "snd (chooseRandom vals rng n) = Suc n"
  by (simp add: chooseRandom_def randomInt_def)

lemma chooseRandom_some:
  assumes "rng_ok rng" and "vals \<noteq> []"
  shows "\<exists>x. chooseRandom vals rng n = (Some x, Suc n)"
proof -
  from assms(2) have "(0::int) \<le> int (length vals) - 1" by (cases vals) auto
  from randomInt_range[OF assms(1) this, of n]
  have "0 \<le> fst (randomInt rng n 0 (int (length vals) - 1))"
    "fst (randomInt rng n 0 (int (length vals) - 1)) < int (length vals)"
    "snd (randomInt rng n 0 (int (length vals) - 1)) = Suc n"
    by auto
  then show ?thesis
    by (cases "randomInt rng n 0 (int (length vals) - 1)") (simp add: chooseRandom_def array_get_def)
qed

lemma chooseRandom_none:
  assumes "rng_ok rng" and "vals \<noteq> []"
  shows "(chooseRandom vals rng n = (None, n')) = False"
  using chooseRandom_some[OF assms, of n] by auto

lemma shuffle_loop_length:
  "shuffle_loop k vals rng n = Inr (vs, n') \<Longrightarrow> length vs = length vals"
proof (induction k arbitrary: vals n)
  case 0
  then show ?case by simp
next
  case (Suc k)
  then show ?case
    by (auto split: prod.splits option.splits)
qed

lemma shuffle_length: "shuffle items rng n = Inr (vs, n') \<Longrightarrow> length vs = length items"
  unfolding shuffle_def by (rule shuffle_loop_length)

lemma shuffle_loop_ok:
  assumes "rng_ok rng"
  shows "k < length vals \<or> k = 0 \<Longrightarrow> \<exists>r. shuffle_loop k vals rng n = Inr r"
proof (induction k arbitrary: vals n)
  case 0
  show ?case by simp
next
  case (Suc k)
  then have len: "Suc k < length vals" by simp
  obtain swapIndex n' where r: "randomInt rng n 0 (int (Suc k)) = (swapIndex, n')"
    by (cases "randomInt rng n 0 (int (Suc k))")
  from randomInt_range(1)[OF assms, of 0 "int (Suc k)" n] r
  have sw: "0 \<le> swapIndex" "swapIndex \<le> int (Suc k)" by auto
  from len have a: "array_get vals (int (Suc k)) = Some (vals ! Suc k)"
    by (simp add: array_get_def del: of_nat_Suc)
  from sw len have b: "array_get vals swapIndex = Some (vals ! nat swapIndex)"
    by (simp add: array_get_def)
  have "k < length ((vals[Suc k := vals ! nat swapIndex])[nat swapIndex := vals ! Suc k]) \<or> k = 0"
    using len by simp
  from Suc.IH[OF this] show ?case
    by (simp add: r a b del: of_nat_Suc)
qed

lemma shuffle_ok:
  assumes "rng_ok rng"
  shows "\<exists>r. shuffle items rng n = Inr r"
  unfolding shuffle_def
  by (rule shuffle_loop_ok[OF assms]) (cases items; simp)

lemma grow_step_no_error:
  assumes "rng_ok rng"
  shows "grow_step nrows ncols maxd rng pointByKey st \<noteq> Return (Inl e)"
  using assms
  by (auto simp: grow_step_def Let_def chooseRandom_none split: if_splits prod.splits option.splits)

lemma grow_loop_ok:
  assumes "rng_ok rng"
  shows "\<exists>r. grow_loop nrows ncols maxd rng pointByKey st = Inr r"
  using assms
proof (induction nrows ncols maxd rng pointByKey st rule: grow_loop.induct)
  case (1 nrows ncols maxd rng pointByKey st)
  show ?case
  proof (cases "Set_size (unassigned st) > 0")
    case False
    then show ?thesis by (subst grow_loop.simps) simp
  next
    case True
    show ?thesis
    proof (cases "grow_step nrows ncols maxd rng pointByKey st")
      case (Continue st')
      with True "1.IH"[OF True Continue] "1.prems" show ?thesis
        by (subst grow_loop.simps) simp
    next
      case (Return res)
      with grow_step_no_error[OF "1.prems"]
      obtain r where "res = Inr r" by (cases res) auto
      with True Return show ?thesis
        by (subst grow_loop.simps) simp
    qed
  qed
qed

lemma buildAllPoints_inBounds:
  "p \<in> set (buildAllPoints nrows ncols) \<Longrightarrow> inBounds (row p) (col p) nrows ncols"
  by (auto simp: buildAllPoints_def inBounds_def)

lemma buildAllPoints_nonempty: "0 < nrows \<Longrightarrow> 0 < ncols \<Longrightarrow> buildAllPoints nrows ncols \<noteq> []"
  by (auto simp: buildAllPoints_def upto.simps)

lemma grid_cells_inBounds:
  "(r, c) \<in> set (grid_cells nrows ncols) \<Longrightarrow> inBounds r c nrows ncols"
  by (auto simp: grid_cells_def inBounds_def)

lemma grid_cells_nonempty: "0 < nrows \<Longrightarrow> 0 < ncols \<Longrightarrow> grid_cells nrows ncols \<noteq> []"
  by (auto simp: grid_cells_def upto.simps)

lemma filter_nonempty: "x \<in> set xs \<Longrightarrow> P x \<Longrightarrow> filter P xs \<noteq> []"
  by (auto simp: filter_empty_conv)

lemma neighbors_nonempty:
  assumes "inBounds r c nrows ncols" and "2 \<le> ncols"
  shows "getNeighborEntries r c nrows ncols \<noteq> []"
proof -
  define f where "f = (\<lambda>d. case DIR_VECTORS d of (dr, dc) \<Rightarrow>
                 (let nextRow = r + dr; nextCol = c + dc
                  in \<lparr>row = nextRow, col = nextCol, entryDir = d, key = coordKey nextRow nextCol\<rparr>))"
  define P where "P = (\<lambda>next :: NeighborEntry. inBounds (row next) (col next) nrows ncols)"
  have g: "getNeighborEntries r c nrows ncols = filter P (map f ALL_DIRECTIONS)"
    by (simp add: getNeighborEntries_def f_def P_def)
  have mem: "f E \<in> set (map f ALL_DIRECTIONS)" "f W \<in> set (map f ALL_DIRECTIONS)"
    by (simp_all add: ALL_DIRECTIONS_def)
  have "P (f E) \<or> P (f W)"
    using assms by (auto simp: P_def f_def inBounds_def Let_def)
  then show ?thesis
  proof
    assume "P (f E)"
    with mem(1) show ?thesis unfolding g by (rule filter_nonempty)
  next
    assume "P (f W)"
    with mem(2) show ?thesis unfolding g by (rule filter_nonempty)
  qed
qed

lemma buildRandomGrowthTree_ok:
  assumes "rng_ok rng"
  shows "\<exists>r. buildRandomGrowthTree nrows ncols maxd rng n = Inr r"
proof (cases "buildAllPoints nrows ncols = []")
  case True
  then show ?thesis by (simp add: buildRandomGrowthTree_def)
next
  case False
  from chooseRandom_some[OF assms False, of n] obtain rootPoint where
    "chooseRandom (buildAllPoints nrows ncols) rng n = (Some rootPoint, Suc n)" by blast
  with False show ?thesis
    using grow_loop_ok[OF assms]
    by (simp add: buildRandomGrowthTree_def Let_def)
qed

lemma Set_add_nonempty: "Set_add s x \<noteq> []"
  by (auto simp: Set_add_def)

lemma add_neighbor_dir_ok:
  assumes "rng_ok rng"
  shows "\<exists>res. add_neighbor_dir config rng r c ds n = Inr res"
proof (cases "map entryDir (getNeighborEntries r c (rows config) (cols config)) = []")
  case True
  then show ?thesis by (simp add: add_neighbor_dir_def)
next
  case False
  from chooseRandom_some[OF assms False, of n] False show ?thesis
    by (auto simp: add_neighbor_dir_def Let_def)
qed

lemma add_neighbor_dir_nonempty:
  assumes "add_neighbor_dir config rng r c ds n = Inr (ds', n')"
    and "getNeighborEntries r c (rows config) (cols config) \<noteq> []"
  shows "ds' \<noteq> []"
  using assms
  by (auto simp: add_neighbor_dir_def Let_def Set_add_nonempty split: prod.splits option.splits)

lemma add_extra_ok:
  assumes "rng_ok rng"
  shows "\<exists>res. add_extra config rng r c ds n = Inr res"
proof -
  let ?xs = "filter (\<lambda>d. \<not> Set_has ds d)
               (map entryDir (getNeighborEntries r c (rows config) (cols config)))"
  show ?thesis
  proof (cases "?xs = []")
    case True
    then show ?thesis by (simp add: add_extra_def Let_def)
  next
    case False
    from chooseRandom_some[OF assms False, of "Suc n"] False show ?thesis
      by (auto simp: add_extra_def Let_def)
  qed
qed

lemma add_leaf_decoy_ok:
  assumes "rng_ok rng"
  shows "\<exists>res. add_leaf_decoy config rng r c ds n = Inr res"
  using add_neighbor_dir_ok[OF assms] by (simp add: add_leaf_decoy_def)

lemma add_forced_ok:
  assumes "rng_ok rng"
  shows "\<exists>res. add_forced config rng r c ds n = Inr res"
  using add_neighbor_dir_ok[OF assms] by (simp add: add_forced_def)

lemma add_forced_nonempty:
  assumes "add_forced config rng r c ds n = Inr (ds', n')"
    and "getNeighborEntries r c (rows config) (cols config) \<noteq> []"
  shows "ds' \<noteq> []"
proof (cases "Set_size ds = 0")
  case True
  with assms show ?thesis
    by (auto simp: add_forced_def dest: add_neighbor_dir_nonempty)
next
  case False
  with assms(1) show ?thesis
    by (auto simp: add_forced_def Set_size_def)
qed

lemma cell_block_ok:
  assumes "rng_ok rng"
  shows "\<exists>res. cell_block tree ser config rng r c n = Inr res"
proof -
  let ?ds0 = "child_dirs \<lparr>row = r, col = c\<rparr>
     (case Map_get (childrenByKey tree) (coordKey r c) of None \<Rightarrow> [] | Some kids \<Rightarrow> kids)"
  obtain ds1 n1 where a: "add_extra config rng r c ?ds0 n = Inr (ds1, n1)"
    using add_extra_ok[OF assms] by (metis surj_pair)
  obtain ds2 n2 where b: "add_leaf_decoy config rng r c ds1 n1 = Inr (ds2, n2)"
    using add_leaf_decoy_ok[OF assms] by (metis surj_pair)
  obtain ds3 n3 where c: "add_forced config rng r c ds2 n2 = Inr (ds3, n3)"
    using add_forced_ok[OF assms] by (metis surj_pair)
  obtain shuffled n4 where d: "shuffle ds3 rng n3 = Inr (shuffled, n4)"
    using shuffle_ok[OF assms] by (metis surj_pair)
  show ?thesis
    by (simp add: cell_block_def Let_def a b c d)
qed

lemma cell_block_dirs:
  assumes "cell_block tree ser config rng r c n = Inr (block, n')"
    and "getNeighborEntries r c (rows config) (cols config) \<noteq> []"
  shows "dirs block \<noteq> []"
proof -
  from assms(1) obtain ds2 n2 ds3 n3 where
    c: "add_forced config rng r c ds2 n2 = Inr (ds3, n3)" and
    d: "shuffle ds3 rng n3 = Inr (dirs block, n')"
    by (auto simp: cell_block_def Let_def split: sum.splits prod.splits)
  from add_forced_nonempty[OF c assms(2)] shuffle_length[OF d] show ?thesis
    by auto
qed

lemma sparse_cells_ok:
  assumes "rng_ok rng"
  shows "\<exists>res. sparse_cells tree ser config rng cells acc n = Inr res"
proof (induction cells arbitrary: acc n)
  case Nil
  show ?case by simp
next
  case (Cons cell cells)
  obtain r c where cell: "cell = (r, c)" by (cases cell)
  obtain block n' where "cell_block tree ser config rng r c n = Inr (block, n')"
    using cell_block_ok[OF assms] by (metis surj_pair)
  with Cons.IH[of "acc @ [block]" n'] show ?case
    by (simp add: cell)
qed

lemma sparse_cells_dirs:
  assumes "sparse_cells tree ser config rng cells acc n = Inr (bs, n')"
    and "\<forall>(r, c) \<in> set cells. getNeighborEntries r c (rows config) (cols config) \<noteq> []"
    and "\<forall>b \<in> set acc. dirs b \<noteq> []"
  shows "\<forall>b \<in> set bs. dirs b \<noteq> []"
  using assms
proof (induction cells arbitrary: acc n)
  case Nil
  then show ?case by simp
next
  case (Cons cell cells)
  obtain r c where cell: "cell = (r, c)" by (cases cell)
  from Cons.prems(1) obtain block n1 where
    cb: "cell_block tree ser config rng r c n = Inr (block, n1)" and
    rest: "sparse_cells tree ser config rng cells (acc @ [block]) n1 = Inr (bs, n')"
    by (auto simp: cell split: sum.splits prod.splits)
  from Cons.prems(2) have "getNeighborEntries r c (rows config) (cols config) \<noteq> []"
    by (simp add: cell)
  from cell_block_dirs[OF cb this] Cons.prems(3) have "\<forall>b \<in> set (acc @ [block]). dirs b \<noteq> []"
    by simp
  moreover from Cons.prems(2) have
    "\<forall>(r, c) \<in> set cells. getNeighborEntries r c (rows config) (cols config) \<noteq> []"
    by simp
  ultimately show ?case
    using Cons.IH[OF rest] by blast
qed

lemma sparse_cells_length:
  "sparse_cells tree ser config rng cells acc n = Inr (bs, n') \<Longrightarrow>
   length bs = length acc + length cells"
proof (induction cells arbitrary: acc n)
  case Nil
  then show ?case by simp
next
  case (Cons cell cells)
  obtain r c where cell: "cell = (r, c)" by (cases cell)
  from Cons.prems obtain block n1 where
    "sparse_cells tree ser config rng cells (acc @ [block]) n1 = Inr (bs, n')"
    by (auto simp: cell split: sum.splits prod.splits)
  from Cons.IH[OF this] show ?case by simp
qed

lemma createSparseBlocksFromTree_ok:
  assumes "rng_ok rng"
  shows "\<exists>res. createSparseBlocksFromTree tree ser config rng n = Inr res"
  unfolding createSparseBlocksFromTree_def by (rule sparse_cells_ok[OF assms])

lemma createSparseBlocksFromTree_dirs:
  assumes "createSparseBlocksFromTree tree ser config rng n = Inr (bs, n')" and "2 \<le> cols config"
  shows "\<forall>b \<in> set bs. dirs b \<noteq> []"
proof -
  have "\<forall>(r, c) \<in> set (grid_cells (rows config) (cols config)).
          getNeighborEntries r c (rows config) (cols config) \<noteq> []"
    using assms(2) neighbors_nonempty by (auto dest!: grid_cells_inBounds)
  with assms(1) show ?thesis
    unfolding createSparseBlocksFromTree_def
    by (rule sparse_cells_dirs) simp
qed

lemma createSparseBlocksFromTree_nonempty:
  assumes "createSparseBlocksFromTree tree ser config rng n = Inr (bs, n')"
    and "0 < rows config" and "0 < cols config"
  shows "bs \<noteq> []"
  using sparse_cells_length[OF assms(1)[unfolded createSparseBlocksFromTree_def]]
    grid_cells_nonempty[OF assms(2,3)]
  by auto

section \<open>The search loop\<close>

lemma config_bounds:
  "5 \<le> rows (DIFFICULTY_CONFIGS dif)" "5 \<le> cols (DIFFICULTY_CONFIGS dif)"
  "maxDirs (DIFFICULTY_CONFIGS dif) = 2"
  by (cases dif; simp)+

lemma gen_step_no_error:
  assumes "rng_ok rng"
  shows "gen_step dif rng ser fb n \<noteq> Return (Inl e)"
proof -
  let ?config = "DIFFICULTY_CONFIGS dif"
  obtain t n1 where t: "buildRandomGrowthTree (rows ?config) (cols ?config) (maxDirs ?config) rng n = Inr (t, n1)"
    using buildRandomGrowthTree_ok[OF assms] by (metis surj_pair)
  show ?thesis
  proof (cases t)
    case None
    with t show ?thesis by (simp add: gen_step_def)
  next
    case (Some tree)
    obtain bs n2 where "createSparseBlocksFromTree tree ser ?config rng n1 = Inr (bs, n2)"
      using createSparseBlocksFromTree_ok[OF assms] by (metis surj_pair)
    with t Some show ?thesis
      by (simp add: gen_step_def Let_def)
  qed
qed

lemma gen_step_return:
  assumes "gen_step dif rng ser fb n = Return (Inr p)"
  shows "list_all (\<lambda>b. dirs b \<noteq> []) (initialBlocks p)"
    and "initialBlocks p \<noteq> []"
    and "success (simulateAttempt (initialBlocks p) (solutionStartId p) (rows p) (cols p))"
    and "int (length (collectWinningStarts (initialBlocks p) (rows p) (cols p) WINNER_SCAN_STOP))
           \<le> TARGET_MAX_WINNERS"
    and "rows p = rows (DIFFICULTY_CONFIGS dif)" and "cols p = cols (DIFFICULTY_CONFIGS dif)"
proof -
  let ?config = "DIFFICULTY_CONFIGS dif"
  from assms obtain tree n1 bs n2 where
    sb: "createSparseBlocksFromTree tree ser ?config rng n1 = Inr (bs, n2)" and
    ok: "success (simulateAttempt bs (arrowId ser (row (root tree)) (col (root tree))) (rows ?config) (cols ?config))" and
    w: "int (length (collectWinningStarts bs (rows ?config) (cols ?config) WINNER_SCAN_STOP)) \<le> TARGET_MAX_WINNERS" and
    p: "p = make_puzzle dif ser bs (arrowId ser (row (root tree)) (col (root tree)))"
    by (auto simp: gen_step_def Let_def split: sum.splits prod.splits option.splits if_splits)
  have c: "2 \<le> cols ?config" "0 < rows ?config" "0 < cols ?config"
    using config_bounds[of dif] by auto
  from createSparseBlocksFromTree_dirs[OF sb c(1)]
  show "list_all (\<lambda>b. dirs b \<noteq> []) (initialBlocks p)"
    by (simp add: p make_puzzle_def list_all_iff)
  from createSparseBlocksFromTree_nonempty[OF sb c(2,3)]
  show "initialBlocks p \<noteq> []"
    by (simp add: p make_puzzle_def)
  from ok show "success (simulateAttempt (initialBlocks p) (solutionStartId p) (rows p) (cols p))"
    by (simp add: p make_puzzle_def)
  from w show "int (length (collectWinningStarts (initialBlocks p) (rows p) (cols p) WINNER_SCAN_STOP))
           \<le> TARGET_MAX_WINNERS"
    by (simp add: p make_puzzle_def)
  show "rows p = rows (DIFFICULTY_CONFIGS dif)" "cols p = cols (DIFFICULTY_CONFIGS dif)"
    by (simp_all add: p make_puzzle_def)
qed

lemma gen_step_continue:
  assumes "gen_step dif rng ser fb n = Continue (fb', n')" and "good_fallback dif fb"
  shows "good_fallback dif fb'"
proof (cases "fb' = fb")
  case True
  with assms(2) show ?thesis by simp
next
  case False
  let ?config = "DIFFICULTY_CONFIGS dif"
  from assms(1) False obtain tree n1 bs n2 cnt where
    sb: "createSparseBlocksFromTree tree ser ?config rng n1 = Inr (bs, n2)" and
    ok: "success (simulateAttempt bs (arrowId ser (row (root tree)) (col (root tree))) (rows ?config) (cols ?config))" and
    fb': "fb' = better_fallback fb bs (arrowId ser (row (root tree)) (col (root tree))) cnt"
    by (auto simp: gen_step_def Let_def split: sum.splits prod.splits option.splits if_splits)
  have c: "2 \<le> cols ?config" "0 < rows ?config" "0 < cols ?config"
    using config_bounds[of dif] by auto
  from fb' False have "fb' = Some (bs, arrowId ser (row (root tree)) (col (root tree)), cnt)"
    by (auto simp: better_fallback_def split: option.splits prod.splits if_splits)
  with createSparseBlocksFromTree_dirs[OF sb c(1)] createSparseBlocksFromTree_nonempty[OF sb c(2,3)] ok
  show ?thesis
    by (simp add: good_fallback_def list_all_iff)
qed

lemma gen_loop_ok:
  assumes "rng_ok rng"
  shows "\<exists>outcome. gen_loop dif rng ser attempt fb n = Inr outcome"
  using assms
proof (induction dif rng ser attempt fb n rule: gen_loop.induct)
  case (1 dif rng ser attempt fb n)
  show ?case
  proof (cases "attempt < GENERATE_RETRIES")
    case False
    then show ?thesis by (subst gen_loop.simps) simp
  next
    case True
    show ?thesis
    proof (cases "gen_step dif rng ser fb n")
      case (Continue nxt)
      obtain fb' n' where nxt: "nxt = (fb', n')" by (cases nxt)
      from "1.IH"[OF True Continue[unfolded nxt] refl "1.prems"] True Continue nxt
      show ?thesis by (subst gen_loop.simps) simp
    next
      case (Return res)
      with gen_step_no_error[OF "1.prems", of dif ser fb n]
      obtain p where "res = Inr p" by (cases res) auto
      with True Return show ?thesis by (subst gen_loop.simps) simp
    qed
  qed
qed

lemma gen_loop_accepted:
  assumes "gen_loop dif rng ser attempt fb n = Inr (Accepted p)"
  shows "\<exists>fb0 n0. gen_step dif rng ser fb0 n0 = Return (Inr p)"
  using assms
proof (induction dif rng ser attempt fb n rule: gen_loop.induct)
  case (1 dif rng ser attempt fb n)
  from "1.prems" have lt: "attempt < GENERATE_RETRIES"
    by (subst (asm) gen_loop.simps) (simp split: if_splits)
  show ?case
  proof (cases "gen_step dif rng ser fb n")
    case (Continue nxt)
    obtain fb' n' where nxt: "nxt = (fb', n')" by (cases nxt)
    from "1.prems" lt Continue nxt have "gen_loop dif rng ser (attempt + 1) fb' n' = Inr (Accepted p)"
      by (subst (asm) gen_loop.simps) simp
    from "1.IH"[OF lt Continue[unfolded nxt] refl this] show ?thesis .
  next
    case (Return res)
    with "1.prems" lt have "res = Inr p"
      by (subst (asm) gen_loop.simps) (simp split: sum.splits)
    with Return show ?thesis by blast
  qed
qed

lemma gen_loop_exhausted:
  assumes "gen_loop dif rng ser attempt fb n = Inr (Exhausted fb')" and "good_fallback dif fb"
  shows "good_fallback dif fb'"
  using assms
proof (induction dif rng ser attempt fb n rule: gen_loop.induct)
  case (1 dif rng ser attempt fb n)
  show ?case
  proof (cases "attempt < GENERATE_RETRIES")
    case False
    with "1.prems" show ?thesis
      by (subst (asm) gen_loop.simps) simp
  next
    case True
    show ?thesis
    proof (cases "gen_step dif rng ser fb n")
      case (Continue nxt)
      obtain fb1 n1 where nxt: "nxt = (fb1, n1)" by (cases nxt)
      from "1.prems"(1) True Continue nxt
      have a: "gen_loop dif rng ser (attempt + 1) fb1 n1 = Inr (Exhausted fb')"
        by (subst (asm) gen_loop.simps) simp
      have b: "good_fallback dif fb1"
        using gen_step_continue[OF Continue[unfolded nxt] "1.prems"(2)] .
      from "1.IH"[OF True Continue[unfolded nxt] refl a b] show ?thesis .
    next
      case (Return res)
      with "1.prems"(1) True show ?thesis
        by (subst (asm) gen_loop.simps) (simp split: sum.splits)
    qed
  qed
qed

lemma rng_ok_const: "0 \<le> x \<Longrightarrow> x < 1 \<Longrightarrow> rng_ok (\<lambda>_. x)"
  by (simp add: rng_ok_def)

lemma basic_blocks_ok:
  assumes "\<forall>p \<in> set points. getNeighborEntries (row p) (col p) (rows config) (cols config) \<noteq> []"
  shows "\<exists>bs. basic_blocks ser config points = Inr bs \<and> length bs = length points
            \<and> list_all (\<lambda>b. length (dirs b) = 1) bs"
  using assms
proof (induction points)
  case Nil
  show ?case by simp
next
  case (Cons p points)
  let ?ds = "map entryDir (getNeighborEntries (row p) (col p) (rows config) (cols config))"
  from Cons.prems have "?ds \<noteq> []" by simp
  from chooseRandom_some[OF rng_ok_const this, of "1 / 2" 0] obtain d where
    d: "chooseRandom ?ds (\<lambda>_. 1 / 2) 0 = (Some d, Suc 0)" by auto
  from Cons obtain bs where
    "basic_blocks ser config points = Inr bs" "length bs = length points"
    "list_all (\<lambda>b. length (dirs b) = 1) bs"
    by auto
  with d show ?case by simp
qed

lemma basic_blocks_dirs:
  "basic_blocks ser config points = Inr bs \<Longrightarrow> list_all (\<lambda>b. length (dirs b) = 1) bs"
proof (induction points arbitrary: bs)
  case Nil
  then show ?case by simp
next
  case (Cons p points)
  then show ?case
    by (auto split: prod.splits option.splits sum.splits)
qed

lemma basic_blocks_length:
  "basic_blocks ser config points = Inr bs \<Longrightarrow> length bs = length points"
proof (induction points arbitrary: bs)
  case Nil
  then show ?case by simp
next
  case (Cons p points)
  then show ?case
    by (auto split: prod.splits option.splits sum.splits)
qed

lemma last_resort_ok: "\<exists>p. last_resort dif ser = Inr p"
proof -
  let ?config = "DIFFICULTY_CONFIGS dif"
  have c: "2 \<le> cols ?config" "0 < rows ?config" "0 < cols ?config"
    using config_bounds[of dif] by auto
  have "\<forall>p \<in> set (buildAllPoints (rows ?config) (cols ?config)).
          getNeighborEntries (row p) (col p) (rows ?config) (cols ?config) \<noteq> []"
    using c(1) neighbors_nonempty buildAllPoints_inBounds by blast
  from basic_blocks_ok[OF this, of ser] obtain bs where
    bs: "basic_blocks ser ?config (buildAllPoints (rows ?config) (cols ?config)) = Inr bs"
    "length bs = length (buildAllPoints (rows ?config) (cols ?config))"
    by blast
  with buildAllPoints_nonempty[OF c(2,3)] have "bs \<noteq> []" by auto
  then have "array_get bs 0 = Some (bs ! 0)" by (simp add: array_get_def)
  with bs(1) show ?thesis
    by (simp add: last_resort_def Let_def)
qed

lemma last_resort_dirs:
  assumes "last_resort dif ser = Inr p"
  shows "list_all (\<lambda>b. length (dirs b) = 1) (initialBlocks p)" and "initialBlocks p \<noteq> []"
proof -
  let ?config = "DIFFICULTY_CONFIGS dif"
  from assms obtain bs first where
    bs: "basic_blocks ser ?config (buildAllPoints (rows ?config) (cols ?config)) = Inr bs"
    and f: "array_get bs 0 = Some first"
    and p: "p = make_puzzle dif ser bs (blockId first)"
    by (auto simp: last_resort_def Let_def split: sum.splits option.splits)
  from basic_blocks_dirs[OF bs] show "list_all (\<lambda>b. length (dirs b) = 1) (initialBlocks p)"
    by (simp add: p make_puzzle_def)
  from f show "initialBlocks p \<noteq> []"
    by (auto simp: p make_puzzle_def array_get_def split: if_splits)
qed

lemma emergency_ok: "\<exists>p. emergency dif ser = Inr p"
proof -
  let ?config = "DIFFICULTY_CONFIGS dif"
  have r1: "rng_ok (\<lambda>_. 1 / 2)" and r2: "rng_ok (\<lambda>_. 7 / 10)"
    by (simp_all add: rng_ok_def)
  obtain t n1 where t: "buildRandomGrowthTree (rows ?config) (cols ?config) 1 (\<lambda>_. 1 / 2) 0 = Inr (t, n1)"
    using buildRandomGrowthTree_ok[OF r1] by (metis surj_pair)
  show ?thesis
  proof (cases t)
    case None
    with t last_resort_ok[of dif ser] show ?thesis
      by (simp add: emergency_def)
  next
    case (Some tree)
    obtain bs n2 where
      "createSparseBlocksFromTree tree ser
         (?config\<lparr>maxDirs := 1, extraDirChance := 0, leafDecoyChance := 1 / 2\<rparr>) (\<lambda>_. 7 / 10) 0 = Inr (bs, n2)"
      using createSparseBlocksFromTree_ok[OF r2] by (metis surj_pair)
    with t Some show ?thesis
      by (simp add: emergency_def Let_def)
  qed
qed

lemma emergency_dirs:
  assumes "emergency dif ser = Inr p"
  shows "list_all (\<lambda>b. dirs b \<noteq> []) (initialBlocks p)" and "initialBlocks p \<noteq> []"
proof -
  let ?config = "DIFFICULTY_CONFIGS dif"
  let ?ec = "?config\<lparr>maxDirs := 1, extraDirChance := 0, leafDecoyChance := 1 / 2\<rparr>"
  have c: "2 \<le> cols ?ec" "0 < rows ?ec" "0 < cols ?ec"
    using config_bounds[of dif] by auto
  from assms consider
    (lr) "last_resort dif ser = Inr p"
    | (em) tree bs n2 where
        "createSparseBlocksFromTree tree ser ?ec (\<lambda>_. 7 / 10) 0 = Inr (bs, n2)"
        "initialBlocks p = bs"
    by (auto simp: emergency_def Let_def make_puzzle_def split: sum.splits prod.splits option.splits)
  then have "list_all (\<lambda>b. dirs b \<noteq> []) (initialBlocks p) \<and> initialBlocks p \<noteq> []"
  proof cases
    case lr
    from last_resort_dirs[OF lr] show ?thesis
      by (auto simp: list_all_iff)
  next
    case em
    from createSparseBlocksFromTree_dirs[OF em(1) c(1)]
      createSparseBlocksFromTree_nonempty[OF em(1) c(2,3)] em(2)
    show ?thesis by (simp add: list_all_iff)
  qed
  then show "list_all (\<lambda>b. dirs b \<noteq> []) (initialBlocks p)" and "initialBlocks p \<noteq> []"
    by simp_all
qed

lemma createPuzzle_ok:
  assumes "rng_ok rng"
  shows "\<exists>p. createPuzzle dif rng ser = Inr p"
proof -
  from gen_loop_ok[OF assms, of dif ser 0 None 0] obtain outcome where
    g: "gen_loop dif rng ser 0 None 0 = Inr outcome" by blast
  show ?thesis
  proof (cases outcome)
    case (Accepted p)
    with g show ?thesis by (simp add: createPuzzle_def)
  next
    case (Exhausted fb)
    show ?thesis
    proof (cases fb)
      case None
      with g Exhausted emergency_ok[of dif ser] show ?thesis
        by (simp add: createPuzzle_def)
    next
      case (Some f)
      with g Exhausted show ?thesis
        by (cases f) (simp add: createPuzzle_def)
    qed
  qed
qed

lemma createPuzzle_dirs:
  assumes "createPuzzle dif rng ser = Inr p"
  shows "list_all (\<lambda>b. dirs b \<noteq> []) (initialBlocks p)" and "initialBlocks p \<noteq> []"
proof -
  from assms obtain outcome where g: "gen_loop dif rng ser 0 None 0 = Inr outcome"
    by (auto simp: createPuzzle_def split: sum.splits)
  have "list_all (\<lambda>b. dirs b \<noteq> []) (initialBlocks p) \<and> initialBlocks p \<noteq> []"
  proof (cases outcome)
    case (Accepted q)
    with g assms have "q = p" by (simp add: createPuzzle_def)
    with gen_loop_accepted[OF g[unfolded Accepted]] obtain fb0 n0 where
      "gen_step dif rng ser fb0 n0 = Return (Inr p)" by blast
    from gen_step_return(1,2)[OF this] show ?thesis by simp
  next
    case (Exhausted fb)
    show ?thesis
    proof (cases fb)
      case None
      with g Exhausted assms have "emergency dif ser = Inr p"
        by (simp add: createPuzzle_def)
      from emergency_dirs[OF this] show ?thesis by simp
    next
      case (Some f)
      obtain fblocks fstart fcount where f: "f = (fblocks, fstart, fcount)" by (cases f)
      from gen_loop_exhausted[OF g[unfolded Exhausted Some f]] have
        "good_fallback dif (Some (fblocks, fstart, fcount))"
        by (simp add: good_fallback_def)
      moreover from g Exhausted Some f assms have "p = make_puzzle dif ser fblocks fstart"
        by (simp add: createPuzzle_def)
      ultimately show ?thesis
        by (simp add: good_fallback_def make_puzzle_def)
    qed
  qed
  then show "list_all (\<lambda>b. dirs b \<noteq> []) (initialBlocks p)" and "initialBlocks p \<noteq> []"
    by simp_all
qed

section \<open>A block no arrow points at\<close>

lemma ray_cell_points_at:
  assumes "ray_cell b d k = (row x, col x)" and "1 \<le> k"
  shows "points_at b d x"
  using assms by (cases d) (auto simp: ray_cell_def points_at_def Let_def)

lemma castNearest_hit_on_ray:
  assumes "toId (castNearest b d index nrows ncols) = Some t"
  shows "\<exists>k\<ge>1. occupant index (ray_cell b d k) = Some t"
proof -
  let ?r = "row b + fst (DIR_VECTORS d)" and ?c = "col b + snd (DIR_VECTORS d)"
  from cast_loop_spec[of d index nrows ncols ?r ?c "[]"] obtain n where
    "case toId (cast_loop d index nrows ncols ?r ?c []) of
       Some h \<Rightarrow> 0 < n \<and> truthy_hit index (step_cell d (?r, ?c) (n - 1)) = Some h
     | None \<Rightarrow> (\<forall>k<n. truthy_hit index (step_cell d (?r, ?c) k) = None)
               \<and> \<not> cell_inBounds (step_cell d (?r, ?c) n) nrows ncols"
    by blast
  with assms have n: "0 < n" "truthy_hit index (step_cell d (?r, ?c) (n - 1)) = Some t"
    by (simp_all add: castNearest_def)
  from n(2) have "truthy_hit index (ray_cell b d (Suc (n - 1))) = Some t"
    by (simp only: step_cell_ray_cell)
  with n(1) have "truthy_hit index (ray_cell b d n) = Some t"
    by simp
  then have "occupant index (ray_cell b d n) = Some t"
    by (simp add: truthy_hit_def split: option.splits if_splits)
  with n(1) show ?thesis
    by (intro exI[of _ n]) simp
qed

lemma add_hit_sources:
  "t \<in> set (foldl (add_hit s) acc cs) \<Longrightarrow> t \<in> set acc \<or> (\<exists>c \<in> set cs. toId c = Some t)"
proof (induction cs arbitrary: acc)
  case Nil
  then show ?case by simp
next
  case (Cons c cs)
  from Cons.IH[OF Cons.prems[simplified]] show ?case
    by (auto simp: add_hit_def Set_add_def split: option.splits if_splits)
qed

lemma next_frontier_sources_aux:
  "t \<in> set (foldl (\<lambda>nf source. foldl (add_hit s) nf (casts source)) acc srcs) \<Longrightarrow>
   t \<in> set acc \<or> (\<exists>src \<in> set srcs. \<exists>c \<in> set (casts src). toId c = Some t)"
proof (induction srcs arbitrary: acc)
  case Nil
  then show ?case by simp
next
  case (Cons src srcs)
  from Cons.IH[OF Cons.prems[simplified]] show ?case
    by (auto dest: add_hit_sources)
qed

lemma next_frontier_sources:
  "t \<in> set (next_frontier srcs s) \<Longrightarrow> \<exists>src \<in> set srcs. \<exists>c \<in> set (casts src). toId c = Some t"
  unfolding next_frontier_def by (drule next_frontier_sources_aux) simp

lemma cast_sources_blocks:
  assumes "src \<in> set (cast_sources nrows ncols ids s)"
  shows "\<exists>blk. Map_get (layoutById s) (fromId src) = Some blk
           \<and> casts src = map (\<lambda>d. castNearest blk d (byCoord s) nrows ncols) (dirs blk)"
proof -
  from assms obtain i where
    "src \<in> set (case Map_get (layoutById s) i of
         None \<Rightarrow> []
       | Some block \<Rightarrow>
           [\<lparr>fromId = i,
             casts = map (\<lambda>d. castNearest block d (byCoord s) nrows ncols) (dirs block)\<rparr>])"
    unfolding cast_sources_def by auto
  then show ?thesis
    by (cases "Map_get (layoutById s) i") auto
qed

lemma frontier_wave_step:
  "frontier (wave_step nrows ncols ids s)
     = next_frontier (cast_sources nrows ncols ids (vanish ids s)) (vanish ids s)"
  by (simp add: wave_step_def Let_def)

lemma never_hit_not_in_next_frontier:
  assumes u: "unique_layout layout" and x: "x \<in> set layout" and np: "never_pointed_at layout x"
    and inv: "sim_inv layout s1"
  shows "blockId x \<notin> set (next_frontier (cast_sources nrows ncols ids s1) s1)"
proof
  assume "blockId x \<in> set (next_frontier (cast_sources nrows ncols ids s1) s1)"
  then obtain src c where src: "src \<in> set (cast_sources nrows ncols ids s1)"
    and c: "c \<in> set (casts src)" and t: "toId c = Some (blockId x)"
    by (blast dest: next_frontier_sources)
  from cast_sources_blocks[OF src] obtain blk where
    blk: "Map_get (layoutById s1) (fromId src) = Some blk"
    and cs: "casts src = map (\<lambda>d. castNearest blk d (byCoord s1) nrows ncols) (dirs blk)"
    by blast
  from inv blk have "blk \<in> set layout"
    by (auto simp: sim_inv_def Map_get_new dest!: map_of_SomeD)
  from c cs obtain d where d: "d \<in> set (dirs blk)"
    and cd: "c = castNearest blk d (byCoord s1) nrows ncols" by auto
  from castNearest_hit_on_ray[OF t[unfolded cd]] obtain k where
    k: "1 \<le> k" "occupant (byCoord s1) (ray_cell blk d k) = Some (blockId x)" by blast
  from k(2) inv obtain b' where b': "b' \<in> set layout"
    "coordKey (row b') (col b') = coordKey (fst (ray_cell blk d k)) (snd (ray_cell blk d k))"
    "blockId b' = blockId x"
    unfolding occupant_def sim_inv_def by blast
  from unique_layout_same_id[OF u b'(1) x b'(3)] have "b' = x" .
  with b'(2) have "ray_cell blk d k = (row x, col x)"
    by (auto dest: coordKey_inj simp: prod_eq_iff)
  from ray_cell_points_at[OF this k(1)] have "points_at blk d x" .
  with np \<open>blk \<in> set layout\<close> d show False
    by (auto simp: never_pointed_at_def list_all_iff)
qed

lemma never_hit_stays_alive:
  assumes u: "unique_layout layout" and x: "x \<in> set layout" and np: "never_pointed_at layout x"
  shows "sim_inv layout s \<Longrightarrow> Map_has (aliveById s) (blockId x) \<Longrightarrow>
         blockId x \<notin> set (frontier s) \<Longrightarrow>
         Map_has (aliveById (sim_loop nrows ncols s)) (blockId x)"
proof (induction nrows ncols s rule: sim_loop.induct)
  case (1 nrows ncols s)
  let ?ids = "filter (Map_has (aliveById s)) (frontier s)"
  let ?s' = "wave_step nrows ncols ?ids s"
  show ?case
  proof (cases "Set_size (frontier s) > 0 \<and> ?ids \<noteq> []")
    case False
    then have "sim_loop nrows ncols s = s" by (rule sim_loop_stop)
    with "1.prems"(2) show ?thesis by simp
  next
    case True
    then have step: "sim_loop nrows ncols s = sim_loop nrows ncols ?s'"
      by (simp add: sim_loop_step)
    have inv': "sim_inv layout ?s'"
      using u "1.prems"(1) by (rule wave_step_inv)
    have alive': "Map_has (aliveById ?s') (blockId x)"
      using "1.prems"(2,3) by (simp add: wave_step_alive)
    have inv1: "sim_inv layout (vanish ?ids s)"
      using u "1.prems"(1) by (rule vanish_inv)
    have fr': "blockId x \<notin> set (frontier ?s')"
      unfolding frontier_wave_step
      by (rule never_hit_not_in_next_frontier[OF u x np inv1])
    have "Map_has (aliveById (sim_loop nrows ncols ?s')) (blockId x)"
      using True by (intro "1.IH"[OF _ refl _ inv' alive' fr']) auto
    with step show ?thesis by simp
  qed
qed

lemma Map_has_nonempty: "Map_has m k \<Longrightarrow> Map_size m \<noteq> 0"
  by (cases m) (auto simp: Map_has_def Map_size_def)

lemma never_hit_start_fails:
  assumes u: "unique_layout layout" and x: "x \<in> set layout" and np: "never_pointed_at layout x"
    and start: "startId \<noteq> blockId x"
  shows "\<not> success (simulateAttempt layout startId nrows ncols)"
proof -
  let ?s0 = "sim_init layout startId"
  have "sim_inv layout ?s0" using u by (rule sim_init_inv)
  moreover have "Map_has (aliveById ?s0) (blockId x)"
    using x by (auto simp: sim_init_def Map_has_new image_iff)
  moreover have "blockId x \<notin> set (frontier ?s0)"
    using start by (simp add: sim_init_def Set_new_def Set_add_def)
  ultimately have "Map_has (aliveById (sim_loop nrows ncols ?s0)) (blockId x)"
    by (rule never_hit_stays_alive[OF u x np])
  then show ?thesis
    by (simp add: simulateAttempt_def Let_def Map_has_nonempty)
qed

lemma winners_loop_all:
  "int (length (winners_loop layout nrows ncols stopAfter rest acc)) < stopAfter \<Longrightarrow>
   winners_loop layout nrows ncols stopAfter rest acc
     = acc @ map blockId (filter (\<lambda>b. success (simulateAttempt layout (blockId b) nrows ncols)) rest)"
proof (induction rest arbitrary: acc)
  case Nil
  show ?case by simp
next
  case (Cons b rest)
  show ?case
  proof (cases "success (simulateAttempt layout (blockId b) nrows ncols)")
    case False
    with Cons show ?thesis by simp
  next
    case True
    show ?thesis
    proof (cases "int (length (acc @ [blockId b])) \<ge> stopAfter")
      case stop: True
      with True Cons.prems show ?thesis by (simp add: Let_def)
    next
      case go: False
      with True Cons.prems have
        "int (length (winners_loop layout nrows ncols stopAfter rest (acc @ [blockId b]))) < stopAfter"
        by (simp add: Let_def)
      from Cons.IH[OF this] True go show ?thesis by (simp add: Let_def)
    qed
  qed
qed

section \<open>An accepted puzzle\<close>

lemma accepted_tree_eq:
  "buildRandomGrowthTree 5 5 2 (\<lambda>_. 7 / 8) 0 = Inr (Some accepted_tree, 49)"
  by code_simp

lemma accepted_layout_eq:
  "createSparseBlocksFromTree accepted_tree 1 (DIFFICULTY_CONFIGS Easy) (\<lambda>_. 7 / 8) 49
     = Inr (accepted_layout, 76)"
  by code_simp

lemma accepted_root_wins: "success (simulateAttempt accepted_layout ''arrow-1-4-1'' 5 5)"
  by code_simp

lemma accepted_unique: "unique_layout accepted_layout"
  by code_simp

lemma accepted_root_never_pointed_at: "never_pointed_at accepted_layout accepted_root"
  by code_simp

lemma accepted_root_mem: "accepted_root \<in> set accepted_layout"
  by code_simp

lemma winners_loop_filter:
  "int (length acc) + int (length (filter (\<lambda>b. success (simulateAttempt layout (blockId b) nrows ncols)) rest)) < stopAfter \<Longrightarrow>
   winners_loop layout nrows ncols stopAfter rest acc
     = acc @ map blockId (filter (\<lambda>b. success (simulateAttempt layout (blockId b) nrows ncols)) rest)"
proof (induction rest arbitrary: acc)
  case Nil
  show ?case by simp
next
  case (Cons b rest)
  show ?case
  proof (cases "success (simulateAttempt layout (blockId b) nrows ncols)")
    case False
    with Cons show ?thesis by simp
  next
    case True
    with Cons.prems have
      "int (length (acc @ [blockId b])) + int (length (filter (\<lambda>b. success (simulateAttempt layout (blockId b) nrows ncols)) rest)) < stopAfter"
      by simp
    from Cons.IH[OF this] True Cons.prems show ?thesis by (simp add: Let_def)
  qed
qed

lemma accepted_winners:
  "filter (\<lambda>b. success (simulateAttempt accepted_layout (blockId b) 5 5)) accepted_layout = [accepted_root]"
proof -
  have "filter (\<lambda>b. success (simulateAttempt accepted_layout (blockId b) 5 5)) accepted_layout
          = filter (\<lambda>b. blockId b = ''arrow-1-4-1'') accepted_layout"
  proof (rule filter_cong[OF refl])
    fix b assume "b \<in> set accepted_layout"
    show "success (simulateAttempt accepted_layout (blockId b) 5 5) = (blockId b = ''arrow-1-4-1'')"
    proof (cases "blockId b = ''arrow-1-4-1''")
      case True
      with accepted_root_wins show ?thesis by simp
    next
      case False
      then have "blockId b \<noteq> blockId accepted_root" by (simp add: accepted_root_def)
      from never_hit_start_fails[OF accepted_unique accepted_root_mem accepted_root_never_pointed_at this]
        False
      show ?thesis by simp
    qed
  qed
  also have "\<dots> = [accepted_root]" by code_simp
  finally show ?thesis .
qed

lemma accepted_collect:
  "collectWinningStarts accepted_layout 5 5 WINNER_SCAN_STOP = [''arrow-1-4-1'']"
  unfolding collectWinningStarts_def
  by (subst winners_loop_filter)
     (simp_all add: accepted_winners WINNER_SCAN_STOP_def TARGET_MAX_WINNERS_def accepted_root_def)

lemma accepted_gen_step:
  "gen_step Easy (\<lambda>_. 7 / 8) 1 None 0 = Return (Inr accepted_puzzle)"
proof -
  have t: "buildRandomGrowthTree 5 5 2 (\<lambda>_. 7 / 8) 0 = Inr (Some accepted_tree, 49)"
    by (rule accepted_tree_eq)
  have r: "root accepted_tree = \<lparr>row = 4, col = 1\<rparr>" by (simp add: accepted_tree_def)
  have a: "arrowId 1 4 1 = ''arrow-1-4-1''" by code_simp
  show ?thesis
    unfolding gen_step_def
    by (simp add: t accepted_layout_eq[simplified] r a accepted_root_wins accepted_collect
          TARGET_MAX_WINNERS_def accepted_puzzle_def Let_def)
qed

lemma accepted_gen_loop:
  "gen_loop Easy (\<lambda>_. 7 / 8) 1 0 None 0 = Inr (Accepted accepted_puzzle)"
  by (subst gen_loop.simps) (simp add: accepted_gen_step GENERATE_RETRIES_def)

lemma accepted_createPuzzle: "createPuzzle Easy (\<lambda>_. 7 / 8) 1 = Inr accepted_puzzle"
  by (simp add: createPuzzle_def accepted_gen_loop)

text \<open>
  C8. Whenever \<^verbatim>\<open>createPuzzle\<close> returns through the immediate acceptance inside
  the retry budget (the search loop returns the puzzle itself: not the fallback, the
  emergency or the last-resort path), the returned layout has at most 2 blocks whose
  activation alone clears the whole board. The winner scan stops early only once it has
  found a third winner, so an accepted count of at most 2 is the count of all winners of
  the whole block list: the scan returns the ids of exactly the winning blocks.
\<close>

theorem accepted_puzzle_at_most_two_winners:
  assumes "gen_loop dif rng ser 0 None 0 = Inr (Accepted p)"
  shows "createPuzzle dif rng ser = Inr p
       \<and> collectWinningStarts (initialBlocks p) (rows p) (cols p) WINNER_SCAN_STOP
           = map blockId (filter (wins p) (initialBlocks p))
       \<and> length (filter (wins p) (initialBlocks p)) \<le> 2
       \<and> card {b \<in> set (initialBlocks p). wins p b} \<le> 2"
proof -
  from gen_loop_accepted[OF assms] obtain fb0 n0 where
    g: "gen_step dif rng ser fb0 n0 = Return (Inr p)" by blast
  let ?ws = "collectWinningStarts (initialBlocks p) (rows p) (cols p) WINNER_SCAN_STOP"
  from gen_step_return(4)[OF g] have le: "int (length ?ws) \<le> TARGET_MAX_WINNERS" .
  then have "int (length (winners_loop (initialBlocks p) (rows p) (cols p) WINNER_SCAN_STOP
                (initialBlocks p) [])) < WINNER_SCAN_STOP"
    by (simp add: collectWinningStarts_def WINNER_SCAN_STOP_def)
  from winners_loop_all[OF this]
  have eq: "?ws = map blockId (filter (wins p) (initialBlocks p))"
    by (simp add: collectWinningStarts_def wins_def[abs_def])
  from le have n: "length (filter (wins p) (initialBlocks p)) \<le> 2"
    unfolding eq by (simp add: TARGET_MAX_WINNERS_def)
  have "{b \<in> set (initialBlocks p). wins p b} = set (filter (wins p) (initialBlocks p))"
    by auto
  then have "card {b \<in> set (initialBlocks p). wins p b} \<le> length (filter (wins p) (initialBlocks p))"
    using card_length[of "filter (wins p) (initialBlocks p)"] by simp
  with n have c: "card {b \<in> set (initialBlocks p). wins p b} \<le> 2" by simp
  from assms have "createPuzzle dif rng ser = Inr p"
    by (simp add: createPuzzle_def)
  with eq n c show ?thesis by simp
qed

theorem accepted_puzzle_at_most_two_winners_witness:
  "gen_loop Easy (\<lambda>_. 7 / 8) 1 0 None 0 = Inr (Accepted accepted_puzzle)
   \<and> createPuzzle Easy (\<lambda>_. 7 / 8) 1 = Inr accepted_puzzle
   \<and> collectWinningStarts (initialBlocks accepted_puzzle) (rows accepted_puzzle) (cols accepted_puzzle)
         WINNER_SCAN_STOP
       = map blockId (filter (wins accepted_puzzle) (initialBlocks accepted_puzzle))
   \<and> filter (wins accepted_puzzle) (initialBlocks accepted_puzzle) = [accepted_root]
   \<and> length (filter (wins accepted_puzzle) (initialBlocks accepted_puzzle)) \<le> 2
   \<and> card {b \<in> set (initialBlocks accepted_puzzle). wins accepted_puzzle b} \<le> 2"
proof -
  have "filter (wins accepted_puzzle) (initialBlocks accepted_puzzle) = [accepted_root]"
    using accepted_winners by (simp add: wins_def[abs_def] accepted_puzzle_def make_puzzle_def)
  with accepted_puzzle_at_most_two_winners[OF accepted_gen_loop] accepted_gen_loop
  show ?thesis by simp
qed

section \<open>Every block has an arrow\<close>

lemma last_resort_easy: "last_resort Easy 1 = Inr last_resort_puzzle"
  by code_simp

text \<open>
  C7. Every block of every layout \<^verbatim>\<open>createPuzzle\<close> returns, for the fixed difficulty
  profiles (all of at least 5 rows and 5 columns), has a non-empty list of directions,
  whatever the random source: \<^verbatim>\<open>createSparseBlocksFromTree\<close> adds one arrow towards a
  neighbour to every cell that would otherwise have none, whatever the random source
  returns, so every block it makes on a grid of at least 5 by 5 has an arrow; and the
  last-resort layout gives every cell exactly one arrow.
\<close>

theorem every_block_has_an_arrow:
  "(createPuzzle dif rng ser = Inr p \<longrightarrow> (\<forall>b \<in> set (initialBlocks p). dirs b \<noteq> []))
   \<and> (5 \<le> rows config \<and> 5 \<le> cols config
        \<and> createSparseBlocksFromTree tree ser config rng n = Inr (bs, n')
      \<longrightarrow> (\<forall>b \<in> set bs. dirs b \<noteq> []))
   \<and> (last_resort dif ser = Inr q \<longrightarrow> (\<forall>b \<in> set (initialBlocks q). length (dirs b) = 1))"
proof (intro conjI impI)
  assume "createPuzzle dif rng ser = Inr p"
  from createPuzzle_dirs(1)[OF this] show "\<forall>b \<in> set (initialBlocks p). dirs b \<noteq> []"
    by (simp add: list_all_iff)
next
  assume a: "5 \<le> rows config \<and> 5 \<le> cols config
        \<and> createSparseBlocksFromTree tree ser config rng n = Inr (bs, n')"
  then have "2 \<le> cols config" by simp
  with a show "\<forall>b \<in> set bs. dirs b \<noteq> []"
    using createSparseBlocksFromTree_dirs by blast
next
  assume "last_resort dif ser = Inr q"
  from last_resort_dirs(1)[OF this] show "\<forall>b \<in> set (initialBlocks q). length (dirs b) = 1"
    by (simp add: list_all_iff)
qed

theorem every_block_has_an_arrow_witness:
  "createPuzzle Easy (\<lambda>_. 7 / 8) 1 = Inr accepted_puzzle
   \<and> list_all (\<lambda>b. dirs b \<noteq> []) (initialBlocks accepted_puzzle)
   \<and> 5 \<le> rows (DIFFICULTY_CONFIGS Easy) \<and> 5 \<le> cols (DIFFICULTY_CONFIGS Easy)
   \<and> createSparseBlocksFromTree accepted_tree 1 (DIFFICULTY_CONFIGS Easy) (\<lambda>_. 7 / 8) 49
       = Inr (accepted_layout, 76)
   \<and> list_all (\<lambda>b. dirs b \<noteq> []) accepted_layout
   \<and> last_resort Easy 1 = Inr last_resort_puzzle
   \<and> list_all (\<lambda>b. length (dirs b) = 1) (initialBlocks last_resort_puzzle)"
  using every_block_has_an_arrow[of Easy "\<lambda>_. 7 / 8" 1 accepted_puzzle "DIFFICULTY_CONFIGS Easy"
          accepted_tree 49 accepted_layout 76 last_resort_puzzle]
    accepted_createPuzzle accepted_layout_eq last_resort_easy
  by (simp add: list_all_iff)

section \<open>Termination\<close>

lemma gen_rounds_bound:
  "gen_rounds dif rng ser attempt fb n \<le> nat (GENERATE_RETRIES - attempt)"
proof (induction dif rng ser attempt fb n rule: gen_rounds.induct)
  case (1 dif rng ser attempt fb n)
  show ?case
  proof (cases "attempt < GENERATE_RETRIES")
    case False
    then show ?thesis by (subst gen_rounds.simps) simp
  next
    case True
    show ?thesis
    proof (cases "gen_step dif rng ser fb n")
      case (Return res)
      with True show ?thesis by (subst gen_rounds.simps) simp
    next
      case (Continue nxt)
      obtain fb' n' where nxt: "nxt = (fb', n')" by (cases nxt)
      from "1.IH"[OF True Continue[unfolded nxt] refl] True Continue nxt
      show ?thesis by (subst gen_rounds.simps) simp
    qed
  qed
qed

lemma two_cells_step:
  "case grow_step 1 2 1 (\<lambda>_. 0) two_cells two_cells_start of
     Continue st' \<Rightarrow> True | Return res \<Rightarrow> False"
  by code_simp

lemma scenarioA_first_wave:
  "filter (Map_has (aliveById (sim_init scenarioA ''a''))) (frontier (sim_init scenarioA ''a'')) = [''a'']"
  by code_simp

text \<open>
  C4. For every difficulty, every random source (a function into [0,1)) and every
  serial, \<^verbatim>\<open>createPuzzle\<close> terminates and returns a puzzle without raising an error.
  The generation loop makes at most 220 passes, the retry budget. Every pass of the
  expansion loop of \<^verbatim>\<open>buildRandomGrowthTree\<close> either returns null or goes round with
  one more cell assigned (fewer cells unassigned). Every wave of the loop of
  \<^verbatim>\<open>simulateAttempt\<close> removes at least one alive block. (These two measures are the
  ones the termination proofs of \<open>grow_loop\<close> and \<open>sim_loop\<close> rest on.)
\<close>

theorem createPuzzle_terminates:
  "(rng_ok rng \<longrightarrow> (\<exists>p. createPuzzle dif rng ser = Inr p))
   \<and> gen_rounds dif rng ser 0 None 0 \<le> 220
   \<and> (rng_ok rng \<longrightarrow>
        (case grow_step treeRows treeCols maxd rng pointByKey st of
           Continue st' \<Rightarrow> length (unassigned st') < length (unassigned st)
         | Return res \<Rightarrow> \<exists>calls. res = Inr (None, calls)))
   \<and> (filter (Map_has (aliveById s)) (frontier s) \<noteq> [] \<longrightarrow>
        Map_size (aliveById (wave_step nrows ncols (filter (Map_has (aliveById s)) (frontier s)) s))
          < Map_size (aliveById s))"
proof (intro conjI impI)
  assume "rng_ok rng"
  then show "\<exists>p. createPuzzle dif rng ser = Inr p" by (rule createPuzzle_ok)
next
  from gen_rounds_bound[of dif rng ser 0 None 0]
  show "gen_rounds dif rng ser 0 None 0 \<le> 220" by (simp add: GENERATE_RETRIES_def)
next
  assume ok: "rng_ok rng"
  show "case grow_step treeRows treeCols maxd rng pointByKey st of
           Continue st' \<Rightarrow> length (unassigned st') < length (unassigned st)
         | Return res \<Rightarrow> \<exists>calls. res = Inr (None, calls)"
  proof (cases "grow_step treeRows treeCols maxd rng pointByKey st")
    case (Continue st')
    from grow_step_decreases[OF this] Continue show ?thesis by simp
  next
    case (Return res)
    with grow_step_no_error[OF ok, of treeRows treeCols maxd pointByKey st]
    have "\<exists>calls. res = Inr (None, calls)"
      by (auto simp: grow_step_def Let_def split: if_splits prod.splits option.splits)
    with Return show ?thesis by simp
  qed
next
  assume "filter (Map_has (aliveById s)) (frontier s) \<noteq> []"
  from wave_step_alive_less[OF this]
  show "Map_size (aliveById (wave_step nrows ncols (filter (Map_has (aliveById s)) (frontier s)) s))
          < Map_size (aliveById s)"
    by (simp add: Map_size_def)
qed

theorem createPuzzle_terminates_witness:
  "rng_ok (\<lambda>_. 0)
   \<and> (\<exists>p. createPuzzle Easy (\<lambda>_. 0) 1 = Inr p)
   \<and> gen_rounds Easy (\<lambda>_. 0) 1 0 None 0 \<le> 220
   \<and> (\<exists>st'. grow_step 1 2 1 (\<lambda>_. 0) two_cells two_cells_start = Continue st'
            \<and> length (unassigned st') < length (unassigned two_cells_start))
   \<and> filter (Map_has (aliveById (sim_init scenarioA ''a''))) (frontier (sim_init scenarioA ''a'')) \<noteq> []
   \<and> Map_size (aliveById (wave_step 2 2
         (filter (Map_has (aliveById (sim_init scenarioA ''a''))) (frontier (sim_init scenarioA ''a'')))
         (sim_init scenarioA ''a'')))
       < Map_size (aliveById (sim_init scenarioA ''a''))"
proof -
  have ok: "rng_ok (\<lambda>_. 0)" by (simp add: rng_ok_def)
  note t = createPuzzle_terminates[where rng = "\<lambda>_. 0" and dif = Easy and ser = 1
             and treeRows = 1 and treeCols = 2 and maxd = 1 and pointByKey = two_cells
             and st = two_cells_start and s = "sim_init scenarioA ''a''" and nrows = 2 and ncols = 2]
  obtain st' where st': "grow_step 1 2 1 (\<lambda>_. 0) two_cells two_cells_start = Continue st'"
    using two_cells_step by (cases "grow_step 1 2 1 (\<lambda>_. 0) two_cells two_cells_start") auto
  from t ok st' have "length (unassigned st') < length (unassigned two_cells_start)"
    by simp
  with st' have g: "\<exists>st'. grow_step 1 2 1 (\<lambda>_. 0) two_cells two_cells_start = Continue st'
            \<and> length (unassigned st') < length (unassigned two_cells_start)" by blast
  have w: "filter (Map_has (aliveById (sim_init scenarioA ''a''))) (frontier (sim_init scenarioA ''a'')) \<noteq> []"
    by (simp add: scenarioA_first_wave)
  from t ok g w show ?thesis by blast
qed

section \<open>A random source that exhausts the search\<close>

lemma randomInt_shift:
  "randomInt rng (n + k) lo hi = (case randomInt (shift_rng rng k) n lo hi of (i, n') \<Rightarrow> (i, n' + k))"
  by (simp add: randomInt_def shift_rng_def)

lemma chooseRandom_shift:
  "chooseRandom vals rng (n + k)
     = (case chooseRandom vals (shift_rng rng k) n of (x, n') \<Rightarrow> (x, n' + k))"
  by (simp add: chooseRandom_def randomInt_shift split: prod.splits)

lemma expandable_later:
  "expandable nrows ncols maxd pointByKey (later k st) = expandable nrows ncols maxd pointByKey st"
  by (rule ext) (simp add: expandable_def later_def split: option.splits)

lemma attach_later:
  "attach (later k st) parentKey childKey child (n + k) = later k (attach st parentKey childKey child n)"
  by (simp add: attach_def later_def Let_def split: option.splits)

lemma grow_step_shift:
  "grow_step nrows ncols maxd rng pointByKey (later k st) =
     (case grow_step nrows ncols maxd (shift_rng rng k) pointByKey st of
        Continue st' \<Rightarrow> Continue (later k st')
      | Return res \<Rightarrow> Return (later_result k res))"
proof -
  have f: "inTree (later k st) = inTree st" "unassigned (later k st) = unassigned st"
    "rngCalls (later k st) = rngCalls st + k"
    by (simp_all add: later_def)
  have u: "\<And>n. later k st\<lparr>rngCalls := n + k\<rparr> = later k (st\<lparr>rngCalls := n\<rparr>)"
    by (simp add: later_def)
  show ?thesis
    unfolding grow_step_def expandable_later f
    by (simp add: Let_def chooseRandom_shift attach_later later_result_def u
          split: prod.splits option.splits)
qed

lemma grow_loop_shift:
  "grow_loop nrows ncols maxd rng pointByKey (later k st)
     = later_result k (grow_loop nrows ncols maxd (shift_rng rng k) pointByKey st)"
proof (induction nrows ncols maxd "shift_rng rng k" pointByKey st rule: grow_loop.induct)
  case (1 nrows ncols maxd pointByKey st)
  have f: "unassigned (later k st) = unassigned st" "rngCalls (later k st) = rngCalls st + k"
    "GrowthTree.truncate (later k st) = GrowthTree.truncate st"
    by (simp_all add: later_def GrowthTree.truncate_def)
  show ?case
  proof (cases "Set_size (unassigned st) > 0")
    case False
    then show ?thesis
      by (simp add: grow_loop.simps[of _ _ _ _ _ "later k st"]
            grow_loop.simps[of _ _ _ "shift_rng rng k" _ st] f later_result_def)
  next
    case True
    show ?thesis
    proof (cases "grow_step nrows ncols maxd (shift_rng rng k) pointByKey st")
      case (Return res)
      with True show ?thesis
        by (simp add: grow_loop.simps[of _ _ _ _ _ "later k st"]
              grow_loop.simps[of _ _ _ "shift_rng rng k" _ st] f grow_step_shift)
    next
      case (Continue st')
      from "1.hyps"[OF True Continue] True Continue show ?thesis
        by (simp add: grow_loop.simps[of _ _ _ _ _ "later k st"]
              grow_loop.simps[of _ _ _ "shift_rng rng k" _ st] f grow_step_shift)
    qed
  qed
qed

lemma buildRandomGrowthTree_shift:
  "buildRandomGrowthTree nrows ncols maxd rng (n + k)
     = later_result k (buildRandomGrowthTree nrows ncols maxd (shift_rng rng k) n)"
proof -
  have l: "\<And>r c i u oc m. \<lparr>root = r, childrenByKey = c, inTree = i, unassigned = u, outCount = oc, rngCalls = m + k\<rparr>
         = later k \<lparr>root = r, childrenByKey = c, inTree = i, unassigned = u, outCount = oc, rngCalls = m\<rparr>"
    by (simp add: later_def)
  show ?thesis
    unfolding buildRandomGrowthTree_def
    by (simp add: Let_def chooseRandom_shift l grow_loop_shift later_result_def
          split: prod.splits option.splits)
qed

lemma dead_end_period: "shift_rng dead_end_rng (31 * k) = dead_end_rng"
  by (rule ext) (simp add: shift_rng_def dead_end_rng_def)

lemma dead_end_ok: "rng_ok dead_end_rng"
proof -
  have "\<forall>x \<in> set dead_end_table. 0 \<le> x \<and> x < 1"
    by (simp add: dead_end_table_def)
  moreover have "\<And>i. dead_end_table ! (i mod 31) \<in> set dead_end_table"
    by (rule nth_mem) (simp add: dead_end_table_def)
  ultimately show ?thesis
    by (simp add: rng_ok_def dead_end_rng_def)
qed

lemma dead_end_tree: "buildRandomGrowthTree 5 5 2 dead_end_rng 0 = Inr (None, 31)"
  by code_simp

lemma dead_end_tree_again: "buildRandomGrowthTree 5 5 2 dead_end_rng (31 * k) = Inr (None, 31 * Suc k)"
  using buildRandomGrowthTree_shift[of 5 5 2 dead_end_rng 0 "31 * k"]
  by (simp add: dead_end_period dead_end_tree later_result_def)

lemma dead_end_gen_step: "gen_step Easy dead_end_rng ser fb (31 * k) = Continue (fb, 31 * Suc k)"
  unfolding gen_step_def by (simp add: dead_end_tree_again)

lemma dead_end_gen_loop:
  "m = nat (GENERATE_RETRIES - attempt) \<Longrightarrow> 0 \<le> attempt \<Longrightarrow>
   gen_loop Easy dead_end_rng ser attempt fb (31 * nat attempt) = Inr (Exhausted fb)"
proof (induction m arbitrary: attempt)
  case 0
  then show ?case by (subst gen_loop.simps) simp
next
  case (Suc m)
  then have lt: "attempt < GENERATE_RETRIES" by simp
  have n: "31 * Suc (nat attempt) = 31 * nat (attempt + 1)"
    using Suc.prems(2) by (simp add: nat_add_distrib)
  have "gen_loop Easy dead_end_rng ser (attempt + 1) fb (31 * nat (attempt + 1)) = Inr (Exhausted fb)"
    using Suc.prems by (intro Suc.IH) simp_all
  with lt show ?case
    by (subst gen_loop.simps) (simp add: dead_end_gen_step n del: mult_Suc_right)
qed

lemma emergency_tree_easy: "buildRandomGrowthTree 5 5 1 (\<lambda>_. 1 / 2) 0 = Inr (None, 47)"
  by code_simp

lemma last_resort_start_fails:
  "\<not> success (simulateAttempt last_resort_layout ''arrow-1-0-0'' 5 5)"
  by code_simp

text \<open>
  C1 says that for every difficulty, every random source with values in [0,1) and
  every serial, the simulation from the \<^verbatim>\<open>solutionStartId\<close> of the puzzle that
  \<^verbatim>\<open>createPuzzle\<close> returns clears the board, the last-resort path included. Here is
  what the code does for difficulty easy, serial 1 and the periodic source
  \<open>dead_end_rng\<close>: all 220 attempts grow into a dead end, the emergency tree (grown
  with the constant source 1/2) grows into a dead end too, and the last-resort layout is
  returned with the block of (0,0) as its start; the simulation from that block leaves
  blocks on the board.
\<close>

theorem createPuzzle_unsolvable_last_resort:
  "rng_ok dead_end_rng
   \<and> createPuzzle Easy dead_end_rng 1 = Inr last_resort_puzzle
   \<and> \<not> success (simulateAttempt (initialBlocks last_resort_puzzle) (solutionStartId last_resort_puzzle)
                  (rows last_resort_puzzle) (cols last_resort_puzzle))"
proof -
  have "gen_loop Easy dead_end_rng 1 0 None 0 = Inr (Exhausted None)"
    using dead_end_gen_loop[of "nat GENERATE_RETRIES" 0 1 None] by simp
  moreover have "emergency Easy 1 = Inr last_resort_puzzle"
    by (simp add: emergency_def emergency_tree_easy last_resort_easy)
  ultimately have "createPuzzle Easy dead_end_rng 1 = Inr last_resort_puzzle"
    by (simp add: createPuzzle_def)
  moreover have "\<not> success (simulateAttempt (initialBlocks last_resort_puzzle)
       (solutionStartId last_resort_puzzle) (rows last_resort_puzzle) (cols last_resort_puzzle))"
    using last_resort_start_fails by (simp add: last_resort_puzzle_def make_puzzle_def)
  ultimately show ?thesis using dead_end_ok by simp
qed

section \<open>Scenario A\<close>

text \<open>
  C10. On the 2 by 2 layout whose four blocks carry one arrow each, forming the cycle
  (0,0) E, (0,1) S, (1,1) W, (1,0) N, the simulation started at the block of (0,0)
  returns exactly four waves, each with exactly one source, in the order of the cycle
  (0,0), (0,1), (1,1), (1,0), and success is true.
\<close>

theorem scenarioA_four_single_source_waves:
  "simulateAttempt scenarioA ''a'' 2 2 =
     \<lparr>waves =
        [\<lparr>sources = [\<lparr>fromId = ''a'', casts = [\<lparr>dir = E, toId = Some ''b'', rayCells = [(0, 1)]\<rparr>]\<rparr>]\<rparr>,
         \<lparr>sources = [\<lparr>fromId = ''b'', casts = [\<lparr>dir = S, toId = Some ''c'', rayCells = [(1, 1)]\<rparr>]\<rparr>]\<rparr>,
         \<lparr>sources = [\<lparr>fromId = ''c'', casts = [\<lparr>dir = W, toId = Some ''d'', rayCells = [(1, 0)]\<rparr>]\<rparr>]\<rparr>,
         \<lparr>sources = [\<lparr>fromId = ''d'', casts = [\<lparr>dir = N, toId = None, rayCells = [(0, 0)]\<rparr>]\<rparr>]\<rparr>],
      success = True\<rparr>"
  by code_simp

end
